theory Spec2Isabelle
  imports Complex_Main
begin

section \<open>Data model of the detector (impl.cpp, class DetectorState)\<close>

text \<open>
  The type variable \<open>'f\<close> stands for the floating-point payload (\<open>float\<close> / \<open>double\<close>):
  the queue, the rolling buffer and the log only store, copy and compare such values, so
  nothing of their arithmetic is fixed here. The type variable \<open>'e\<close> is the state of the
  external analysis objects (tempo, onset, pitch).

  Indices of type \<open>std::size_t\<close> are natural numbers. Every index stays below the
  capacity of its array (lemmas \<open>queue_ok_spsc_push\<close>, \<open>bpm_ok_record_bpm\<close>), so no
  addition on them reaches \<open>2^64\<close>.
\<close>

record 'f Event =
  is_beat :: bool
  is_onset :: bool
  bpm :: 'f
  pitch_hz :: 'f
  process_ms :: 'f

record 'f BPMBuffer =
  bpm_values :: "'f list"
  bpm_count :: nat
  bpm_head :: nat

definition kBPMCapacity :: nat where
  "kBPMCapacity = 10"

definition kEventCap :: nat where
  "kEventCap = 1024"

text \<open>Calls made to the audio transport and the event loop, in the order they are issued.\<close>

datatype pw_call =
  PwStreamSetActive bool
  | PwStreamDisconnect
  | PwMainLoopQuit
  | PwLoopSignalEvent
  | PwStreamQueueBuffer

text \<open>
  One call of \<open>std::println\<close>: the format string and its arguments in order. The
  rendering of an argument by \<open>std::format\<close> is not modelled.
\<close>

datatype 'f fmt_arg =
  ArgTime nat
  | ArgInt int
  | ArgFloat 'f
  | ArgStr string

record 'f out_line =
  fmt :: string
  fmt_args :: "'f fmt_arg list"

record ('f, 'e) DetectorState =
  main_loop :: bool
  stream :: bool
  aubio :: 'e
  buffer_size :: nat
  fft_size :: nat
  log_enabled :: bool
  stats_enabled :: bool
  pitch_enabled :: bool
  visual_enabled :: bool
  log_file :: "'f out_line list option"
  total_beats :: nat
  total_onsets :: nat
  last_bpm :: 'f
  events :: "'f Event list"
  ev_head :: nat
  ev_tail :: nat
  event_src :: bool
  stopping :: bool
  state_bpm :: "'f BPMBuffer"
  quit :: bool
  instance_set :: bool
  quit_monitor :: bool
  pw_calls :: "pw_call list"
  stderr_lines :: "'f out_line list"
  clock_reads :: nat

text \<open>
  Pointers are modelled by what the code tests of them: \<open>main_loop\<close>, \<open>stream\<close> and
  \<open>event_src\<close> are \<open>True\<close> when non-null. \<open>log_file\<close> is \<open>None\<close> while the stream
  is closed and holds the lines written so far once it is open. \<open>quit_monitor\<close> is
  \<open>True\<close> while the monitor thread is in its polling loop. \<open>pw_calls\<close>,
  \<open>stderr_lines\<close> and \<open>clock_reads\<close> record the effects on the environment; console
  output on stdout is not carried.
\<close>

definition value_init_Event :: "('f::zero) Event" where
  "value_init_Event =
     \<lparr>is_beat = False, is_onset = False, bpm = 0, pitch_hz = 0, process_ms = 0\<rparr>"

definition value_init_BPMBuffer :: "('f::zero) BPMBuffer" where
  "value_init_BPMBuffer =
     \<lparr>bpm_values = replicate kBPMCapacity 0, bpm_count = 0, bpm_head = 0\<rparr>"

text \<open>
  The constructor (impl.cpp 140-166); \<open>quit0\<close> is the value of the static flag
  \<open>quit\<close> when the object is built, and \<open>aubio0\<close> the (still empty) analysis objects.
\<close>

definition DetectorState_ctor ::
  "nat \<Rightarrow> bool \<Rightarrow> bool \<Rightarrow> bool \<Rightarrow> bool \<Rightarrow> bool \<Rightarrow> 'e \<Rightarrow> ('f::zero, 'e) DetectorState" where
  "DetectorState_ctor buffer_size_in enable_logging enable_stats enable_pitch_detection
       enable_visualization quit0 aubio0 =
     \<lparr>main_loop = False, stream = False, aubio = aubio0,
      buffer_size = buffer_size_in, fft_size = (buffer_size_in * 2) mod 2 ^ 32,
      log_enabled = enable_logging, stats_enabled = enable_stats,
      pitch_enabled = enable_pitch_detection, visual_enabled = enable_visualization,
      log_file = None, total_beats = 0, total_onsets = 0, last_bpm = 0,
      events = replicate kEventCap value_init_Event, ev_head = 0, ev_tail = 0,
      event_src = False, stopping = False, state_bpm = value_init_BPMBuffer,
      quit = quit0, instance_set = True, quit_monitor = True, pw_calls = [],
      stderr_lines = [],
      clock_reads = 0\<rparr>"

section \<open>The SPSC event queue\<close>

text \<open>
  The producer side (impl.cpp 466-497): the body of \<open>if (produced_event)\<close> in the
  real-time callback, for an event already assembled.
\<close>

definition spsc_push :: "'f Event \<Rightarrow> ('f, 'e) DetectorState \<Rightarrow> ('f, 'e) DetectorState" where
  "spsc_push event state =
     (let head = ev_head state;
          tail = ev_tail state;
          next_head = (head + 1) mod kEventCap;
          state1 = (if next_head = tail
                    then state\<lparr>ev_tail := (tail + 1) mod kEventCap\<rparr>
                    else state);
          state2 = state1\<lparr>events := (events state1)[head := event]\<rparr>;
          state3 = state2\<lparr>ev_head := next_head\<rparr>
      in if event_src state3
         then state3\<lparr>pw_calls := pw_calls state3 @ [PwLoopSignalEvent]\<rparr>
         else state3)"

text \<open>
  The consumer side (impl.cpp 572-631): the callback registered with
  \<open>pw_loop_add_event\<close>. \<open>system_clock\<close> gives the successive readings of
  \<open>std::chrono::system_clock::now()\<close> in nanoseconds since the epoch; \<open>consumed\<close>
  collects the events read from the slots, in the order they are read. The loop has no
  bound of its own, so its result is optional.
\<close>

definition log_event_line :: "nat \<Rightarrow> 'f::zero Event \<Rightarrow> 'f out_line" where
  "log_event_line current_time event =
     \<lparr>fmt = ''{:%T}.{:03},{:.1f},{},{:.3f},'',
      fmt_args = [ArgTime current_time,
                  ArgInt (int ((current_time div 1000000) mod 1000)),
                  ArgFloat (if is_beat event then bpm event else 0),
                  ArgInt (if is_onset event then 1 else 0),
                  ArgFloat (pitch_hz event)]\<rparr>"

definition drain_body ::
  "(nat \<Rightarrow> nat) \<Rightarrow> ('f::zero, 'e) DetectorState \<Rightarrow> 'f Event \<times> ('f, 'e) DetectorState" where
  "drain_body system_clock state =
     (let tail = ev_tail state;
          event = events state ! tail;
          state1 = state\<lparr>ev_tail := (tail + 1) mod kEventCap\<rparr>
      in case log_file state1 of
           Some written \<Rightarrow>
             if log_enabled state1 \<and> (is_beat event \<or> is_onset event)
             then (event,
                   state1\<lparr>log_file :=
                            Some (written @
                                  [log_event_line (system_clock (clock_reads state1)) event]),
                          clock_reads := clock_reads state1 + 1\<rparr>)
             else (event, state1)
         | None \<Rightarrow> (event, state1))"

partial_function (option) drain_loop ::
  "(nat \<Rightarrow> nat) \<Rightarrow> 'f Event list \<Rightarrow> ('f::zero, 'e) DetectorState
     \<Rightarrow> ('f Event list \<times> ('f, 'e) DetectorState) option" where
  "drain_loop system_clock consumed state =
     (if ev_tail state = ev_head state then Some (consumed, state)
      else case drain_body system_clock state of
             (event, state') \<Rightarrow> drain_loop system_clock (consumed @ [event]) state')"

definition drain ::
  "(nat \<Rightarrow> nat) \<Rightarrow> ('f::zero, 'e) DetectorState
     \<Rightarrow> ('f Event list \<times> ('f, 'e) DetectorState) option" where
  "drain system_clock state = drain_loop system_clock [] state"

section \<open>The BPM rolling buffer\<close>

text \<open>Recording a tempo (impl.cpp 451-456), inside \<open>if (is_beat)\<close> of the callback.\<close>

definition record_bpm :: "'f \<Rightarrow> 'f BPMBuffer \<Rightarrow> 'f BPMBuffer" where
  "record_bpm bpm_now bpm_buffer =
     (let b1 = bpm_buffer\<lparr>bpm_values := (bpm_values bpm_buffer)[bpm_head bpm_buffer := bpm_now]\<rparr>;
          b2 = b1\<lparr>bpm_head := (bpm_head b1 + 1) mod kBPMCapacity\<rparr>
      in b2\<lparr>bpm_count := min (bpm_count b2 + 1) kBPMCapacity\<rparr>)"

text \<open>
  \<open>averageBpm\<close> (impl.cpp 257-275). The transformed index range is
  \<open>bpm_value_view\<close>; \<open>std::accumulate\<close> from \<open>0.0F\<close> is a left fold of \<open>+\<close>. The
  arithmetic is that of the type \<open>'f\<close>, whatever it is: the sort asks for the three
  operations only, and \<open>float_of_size\<close> is \<open>static_cast<float>\<close> on \<open>std::size_t\<close>.
\<close>

definition bpm_value_view :: "'f BPMBuffer \<Rightarrow> 'f list" where
  "bpm_value_view state_bpm' =
     map (\<lambda>index.
            let capacity = kBPMCapacity;
                first_index = (bpm_head state_bpm' + capacity - bpm_count state_bpm') mod capacity
            in bpm_values state_bpm' ! ((first_index + index) mod capacity))
         [0 ..< bpm_count state_bpm']"

definition averageBpm ::
  "(nat \<Rightarrow> 'f) \<Rightarrow> ('f::{zero,plus,divide}, 'e) DetectorState \<Rightarrow> 'f" where
  "averageBpm float_of_size state =
     (if bpm_count (state_bpm state) = 0 then 0
      else let total_bpm = foldl (+) 0 (bpm_value_view (state_bpm state));
               average_bpm = total_bpm div float_of_size (bpm_count (state_bpm state))
           in average_bpm)"

section \<open>Buffer views and blocks (module audio.blocks)\<close>

datatype ViewError =
  NullData
  | ZeroBlockSize
  | MisalignedBytes
  | UnsupportedStride

fun toString :: "ViewError \<Rightarrow> string" where
  "toString NullData = ''null data pointer''"
| "toString ZeroBlockSize = ''block size must be > 0''"
| "toString MisalignedBytes = ''byte size is not a multiple of sample size''"
| "toString UnsupportedStride = ''unsupported stride/layout''"

record 'f BufferView =
  view_samples :: "'f list"
  view_block_size :: nat

text \<open>
  \<open>BlockRange::Iterator\<close>: the span and the block size never change, so an iterator is
  its offset. \<open>operator*\<close> is \<open>subspan(offset, block)\<close>, \<open>operator++\<close> adds the block
  size, \<open>operator!=\<close> compares offsets. \<open>BlockRange::end\<close> divides by the block size,
  which the factory functions below refuse when it is zero.
\<close>

definition subspan :: "'f list \<Rightarrow> nat \<Rightarrow> nat \<Rightarrow> 'f list" where
  "subspan all offset count' = take count' (drop offset all)"

definition blocks_begin :: "'f BufferView \<Rightarrow> nat" where
  "blocks_begin view = 0"

definition blocks_end :: "'f BufferView \<Rightarrow> nat" where
  "blocks_end view =
     (let usable = (length (view_samples view) div view_block_size view) * view_block_size view
      in usable)"

text \<open>
  The range-based \<open>for (auto block : view.blocks())\<close>: the body runs on the block at
  the iterator, then the iterator is advanced, until it equals the end iterator.
\<close>

partial_function (option) for_blocks ::
  "('f list \<Rightarrow> 's \<Rightarrow> 's) \<Rightarrow> 'f BufferView \<Rightarrow> nat \<Rightarrow> nat \<Rightarrow> 's \<Rightarrow> 's option" where
  "for_blocks body view offset end_offset s =
     (if offset \<noteq> end_offset
      then for_blocks body view (offset + view_block_size view) end_offset
             (body (subspan (view_samples view) offset (view_block_size view)) s)
      else Some s)"

definition for_each_block :: "('f list \<Rightarrow> 's \<Rightarrow> 's) \<Rightarrow> 'f BufferView \<Rightarrow> 's \<Rightarrow> 's option" where
  "for_each_block body view s = for_blocks body view (blocks_begin view) (blocks_end view) s"

text \<open>The blocks that iterating \<open>blocks()\<close> yields, in order.\<close>

definition blocks :: "'f BufferView \<Rightarrow> 'f list list option" where
  "blocks view = for_each_block (\<lambda>block yielded. yielded @ [block]) view []"

definition tailPartial :: "'f BufferView \<Rightarrow> 'f list" where
  "tailPartial view =
     (let tail_size = length (view_samples view) mod view_block_size view
      in if tail_size \<noteq> 0
         then drop (length (view_samples view) - tail_size) (view_samples view)
         else [])"

definition sizeof_float :: nat where
  "sizeof_float = 4"

definition makeBufferViewFromSpan :: "'f list \<Rightarrow> nat \<Rightarrow> ViewError + 'f BufferView" where
  "makeBufferViewFromSpan samples block_size_samples =
     (if block_size_samples = 0 then Inl ZeroBlockSize
      else Inr \<lparr>view_samples = samples, view_block_size = block_size_samples\<rparr>)"

text \<open>
  A data pointer is \<open>None\<close> when null and otherwise the samples stored from that address
  on; the span built over it holds the first \<open>count\<close> of them.
\<close>

definition makeBufferViewFromBytes ::
  "'f list option \<Rightarrow> nat \<Rightarrow> nat \<Rightarrow> ViewError + 'f BufferView" where
  "makeBufferViewFromBytes data' byte_size block_size_samples =
     (case data' of
        None \<Rightarrow> Inl NullData
      | Some memory \<Rightarrow>
          if block_size_samples = 0 then Inl ZeroBlockSize
          else if byte_size mod sizeof_float \<noteq> 0 then Inl MisalignedBytes
          else let count' = byte_size div sizeof_float
               in Inr \<lparr>view_samples = take count' memory,
                       view_block_size = block_size_samples\<rparr>)"

subsection \<open>The SPA adapter (module audio.blocks:spa)\<close>

text \<open>
  \<open>spa_buffer\<close> as far as the code reads it: \<open>datas[0].data\<close>, \<open>datas[0].chunk\<close>, and
  of the chunk its \<open>size\<close> (\<open>uint32_t\<close>) and \<open>stride\<close> (\<open>int32_t\<close>).
\<close>

record spa_chunk =
  chunk_size :: nat
  chunk_stride :: int

record 'f spa_data =
  data :: "'f list option"
  chunk :: "spa_chunk option"

record 'f spa_buffer =
  datas0 :: "'f spa_data"

definition spaDataPtr :: "'f spa_buffer option \<Rightarrow> 'f list option" where
  "spaDataPtr buffer =
     (case buffer of
        None \<Rightarrow> None
      | Some b \<Rightarrow> (if data (datas0 b) \<noteq> None then data (datas0 b) else None))"

definition spaSizeBytes :: "'f spa_buffer option \<Rightarrow> nat" where
  "spaSizeBytes buffer =
     (case buffer of
        None \<Rightarrow> 0
      | Some b \<Rightarrow> (case chunk (datas0 b) of None \<Rightarrow> 0 | Some c \<Rightarrow> chunk_size c))"

text \<open>\<open>static_cast<std::size_t>\<close> of an \<open>int32_t\<close>: the value modulo \<open>2^64\<close>.\<close>

definition size_t_of_int32 :: "int \<Rightarrow> nat" where
  "size_t_of_int32 i = nat (i mod 2 ^ 64)"

definition spaStrideBytes :: "'f spa_buffer option \<Rightarrow> nat \<Rightarrow> nat" where
  "spaStrideBytes buffer default_stride =
     (case buffer of
        None \<Rightarrow> 0
      | Some b \<Rightarrow>
          (case chunk (datas0 b) of
             None \<Rightarrow> 0
           | Some c \<Rightarrow>
               let stride = size_t_of_int32 (chunk_stride c)
               in if stride \<noteq> 0 then stride else default_stride))"

definition makeBufferViewFromSpaMonoF32 ::
  "'f spa_buffer option \<Rightarrow> nat \<Rightarrow> ViewError + 'f BufferView" where
  "makeBufferViewFromSpaMonoF32 buffer block_size_samples =
     (let data_ptr = spaDataPtr buffer;
          byte_count = spaSizeBytes buffer;
          stride = spaStrideBytes buffer sizeof_float
      in if data_ptr = None then Inl NullData
         else if block_size_samples = 0 then Inl ZeroBlockSize
         else if stride \<noteq> sizeof_float then Inl UnsupportedStride
         else if byte_count mod sizeof_float \<noteq> 0 then Inl MisalignedBytes
         else makeBufferViewFromBytes data_ptr byte_count block_size_samples)"

section \<open>The real-time callback (impl.cpp 385-517)\<close>

text \<open>
  The analysis library is a parameter: each \<open>_do\<close> function takes the state of the
  analysis objects and the block copied into the input vector, and returns what the code
  reads from the output vector afterwards (for tempo and onset, whether \<open>data[0]\<close>
  differs from zero) with the new state.
\<close>

record ('f, 'e) analysis_engine =
  aubio_tempo_do :: "'e \<Rightarrow> 'f list \<Rightarrow> bool \<times> 'e"
  aubio_onset_do :: "'e \<Rightarrow> 'f list \<Rightarrow> bool \<times> 'e"
  aubio_pitch_do :: "'e \<Rightarrow> 'f list \<Rightarrow> 'f \<times> 'e"
  aubio_tempo_get_bpm :: "'e \<Rightarrow> 'f"

text \<open>The body of the loop over the blocks (impl.cpp 415-497); counters are \<open>uint64_t\<close>.\<close>

definition process_block ::
  "('f, 'e) analysis_engine \<Rightarrow> 'f list \<Rightarrow> ('f::zero, 'e) DetectorState
     \<Rightarrow> ('f, 'e) DetectorState" where
  "process_block engine block process_state =
     (case aubio_tempo_do engine (aubio process_state) block of (is_beat', a1) \<Rightarrow>
      case aubio_onset_do engine a1 block of (is_onset', a2) \<Rightarrow>
      case (if pitch_enabled process_state then aubio_pitch_do engine a2 block else (0, a2))
        of (pitch_hz', a3) \<Rightarrow>
      let s0 = process_state\<lparr>aubio := a3\<rparr>;
          bpm_now = (if is_beat' then aubio_tempo_get_bpm engine a3 else last_bpm s0);
          s1 = (if is_beat'
                then s0\<lparr>total_beats := (total_beats s0 + 1) mod 2 ^ 64,
                        last_bpm := bpm_now,
                        state_bpm := record_bpm bpm_now (state_bpm s0)\<rparr>
                else s0);
          s2 = (if is_onset'
                then s1\<lparr>total_onsets := (total_onsets s1 + 1) mod 2 ^ 64\<rparr>
                else s1);
          produced_event = (is_beat' \<or> is_onset')
      in if produced_event
         then spsc_push \<lparr>is_beat = is_beat', is_onset = is_onset', bpm = bpm_now,
                         pitch_hz = pitch_hz', process_ms = 0\<rparr> s2
         else s2)"

definition process_view ::
  "('f, 'e) analysis_engine \<Rightarrow> 'f BufferView \<Rightarrow> ('f::zero, 'e) DetectorState
     \<Rightarrow> ('f, 'e) DetectorState option" where
  "process_view engine view process_state =
     for_each_block (process_block engine) view process_state"

record 'f pw_buffer =
  buffer :: "'f spa_buffer option"

definition rejected_line :: "ViewError \<Rightarrow> 'f out_line" where
  "rejected_line error = \<lparr>fmt = ''SPA buffer rejected: {}'', fmt_args = [ArgStr (toString error)]\<rparr>"

text \<open>
  \<open>dequeued\<close> is what \<open>pw_stream_dequeue_buffer\<close> returns for this call. The lease
  returns the buffer on every path that obtained one.
\<close>

definition process ::
  "('f, 'e) analysis_engine \<Rightarrow> 'f pw_buffer option \<Rightarrow> ('f::zero, 'e) DetectorState
     \<Rightarrow> ('f, 'e) DetectorState option" where
  "process engine dequeued process_state =
     (if quit process_state then Some process_state
      else case dequeued of
             None \<Rightarrow> Some process_state
           | Some pw_buf \<Rightarrow>
               let lease_stream = stream process_state;
                   analysed =
                     (case buffer pw_buf of
                        None \<Rightarrow> Some process_state
                      | Some spa_buf \<Rightarrow>
                          if data (datas0 spa_buf) \<noteq> None \<and> chunk (datas0 spa_buf) \<noteq> None
                          then (case makeBufferViewFromSpaMonoF32 (Some spa_buf)
                                       (buffer_size process_state) of
                                  Inr view \<Rightarrow> process_view engine view process_state
                                | Inl error \<Rightarrow>
                                    Some (process_state
                                            \<lparr>stderr_lines := stderr_lines process_state
                                                              @ [rejected_line error]\<rparr>))
                          else Some process_state)
               in map_option
                    (\<lambda>s. if lease_stream
                         then s\<lparr>pw_calls := pw_calls s @ [PwStreamQueueBuffer]\<rparr> else s)
                    analysed)"

section \<open>Stream lifecycle and shutdown (impl.cpp 339-378, 154-165, 636-677)\<close>

datatype pw_stream_state =
  PW_STREAM_STATE_ERROR
  | PW_STREAM_STATE_UNCONNECTED
  | PW_STREAM_STATE_CONNECTING
  | PW_STREAM_STATE_PAUSED
  | PW_STREAM_STATE_STREAMING

text \<open>The icon \<open>kFail\<close> is U+F467, here as its UTF-8 bytes.\<close>

definition kFail :: string where
  "kFail = [CHR 0xEF, CHR 0x91, CHR 0xA7]"

definition stream_error_line :: "string option \<Rightarrow> 'f out_line" where
  "stream_error_line error =
     \<lparr>fmt = ''{} Stream error: {}'',
      fmt_args = [ArgStr kFail, ArgStr (case error of Some msg \<Rightarrow> msg | None \<Rightarrow> ''unknown'')]\<rparr>"

definition state_changed ::
  "pw_stream_state \<Rightarrow> string option \<Rightarrow> ('f, 'e) DetectorState \<Rightarrow> ('f, 'e) DetectorState" where
  "state_changed state error event_state =
     (let s1 = (if state = PW_STREAM_STATE_ERROR
                then let s0 = event_state\<lparr>stderr_lines := stderr_lines event_state
                                                         @ [stream_error_line error]\<rparr>
                     in if main_loop s0
                        then s0\<lparr>pw_calls := pw_calls s0 @ [PwMainLoopQuit]\<rparr>
                        else s0
                else event_state)
      in if state = PW_STREAM_STATE_PAUSED
         then if stopping s1
              then if stream s1
                   then s1\<lparr>pw_calls := pw_calls s1 @ [PwStreamDisconnect]\<rparr>
                   else s1
              else s1
         else s1)"

definition destroy :: "('f, 'e) DetectorState \<Rightarrow> ('f, 'e) DetectorState" where
  "destroy state = (if stream state then state\<lparr>stream := False\<rparr> else state)"

definition stop :: "('f, 'e) DetectorState \<Rightarrow> ('f, 'e) DetectorState" where
  "stop current_state =
     (let s1 = current_state\<lparr>quit := True\<rparr>
      in if stream s1
         then let s2 = s1\<lparr>stopping := True\<rparr>
              in s2\<lparr>pw_calls := pw_calls s2 @ [PwStreamSetActive False]\<rparr>
         else s1)"

definition signalHandler :: "('f, 'e) DetectorState \<Rightarrow> ('f, 'e) DetectorState" where
  "signalHandler state = (if instance_set state then state\<lparr>quit := True\<rparr> else state)"

text \<open>
  One turn of the monitor thread's loop (impl.cpp 156-164), between two sleeps: once it
  has seen \<open>quit\<close> it leaves the loop.
\<close>

definition quit_monitor_poll :: "('f, 'e) DetectorState \<Rightarrow> ('f, 'e) DetectorState" where
  "quit_monitor_poll state =
     (if \<not> quit_monitor state then state
      else if quit state
           then let s1 = (if main_loop state
                          then state\<lparr>pw_calls := pw_calls state @ [PwMainLoopQuit]\<rparr>
                          else state)
                in s1\<lparr>quit_monitor := False\<rparr>
           else state)"

text \<open>
  What happens while \<open>pw_main_loop_run\<close> is running: the callbacks the loop and the
  real-time thread deliver, and the calls other threads make on the detector. Each is
  taken as one atomic step; the interleaving inside a step is not modelled.
\<close>

datatype 'f run_op =
  OpProcess "'f pw_buffer option"
  | OpDrain
  | OpStateChanged pw_stream_state "string option"
  | OpDestroy
  | OpStop
  | OpSignal
  | OpMonitorPoll

fun step ::
  "('f, 'e) analysis_engine \<Rightarrow> (nat \<Rightarrow> nat) \<Rightarrow> 'f run_op \<Rightarrow> ('f::zero, 'e) DetectorState
     \<Rightarrow> ('f, 'e) DetectorState option" where
  "step engine system_clock (OpProcess dequeued) state = process engine dequeued state"
| "step engine system_clock OpDrain state = map_option snd (drain system_clock state)"
| "step engine system_clock (OpStateChanged new_state error) state =
     Some (state_changed new_state error state)"
| "step engine system_clock OpDestroy state = Some (destroy state)"
| "step engine system_clock OpStop state = Some (stop state)"
| "step engine system_clock OpSignal state = Some (signalHandler state)"
| "step engine system_clock OpMonitorPoll state = Some (quit_monitor_poll state)"

fun run_ops ::
  "('f, 'e) analysis_engine \<Rightarrow> (nat \<Rightarrow> nat) \<Rightarrow> 'f run_op list \<Rightarrow> ('f::zero, 'e) DetectorState
     \<Rightarrow> ('f, 'e) DetectorState option" where
  "run_ops engine system_clock [] state = Some state"
| "run_ops engine system_clock (op # ops) state =
     (case step engine system_clock op state of
        None \<Rightarrow> None
      | Some state' \<Rightarrow> run_ops engine system_clock ops state')"

text \<open>
  \<open>BeatDetector::run\<close> (impl.cpp 636-658): \<open>ops\<close> is what is delivered while the main
  loop runs.
\<close>

definition run ::
  "('f, 'e) analysis_engine \<Rightarrow> (nat \<Rightarrow> nat) \<Rightarrow> 'f run_op list \<Rightarrow> ('f::zero, 'e) DetectorState
     \<Rightarrow> ('f, 'e) DetectorState option" where
  "run engine system_clock ops current_state =
     (if \<not> main_loop current_state then Some current_state
      else run_ops engine system_clock ops (current_state\<lparr>quit := False\<rparr>))"

section \<open>Initialisation (impl.cpp 277-634)\<close>

text \<open>
  What the environment answers during \<open>initialize\<close>: the UTC time read for the log's
  name and title, and for each resource whether its creation succeeds.
\<close>

record init_env =
  utc_current_time :: nat
  log_opens :: bool
  main_loop_new_ok :: bool
  tempo_new_ok :: bool
  input_vector_new_ok :: bool
  output_vector_new_ok :: bool
  onset_new_ok :: bool
  pitch_new_ok :: bool
  pitch_buffer_new_ok :: bool
  stream_new_ok :: bool
  stream_connect_ok :: bool
  add_event_ok :: bool

definition log_title_line :: "nat \<Rightarrow> 'f out_line" where
  "log_title_line utc = \<lparr>fmt = ''# Beat Detection Log - {:%F %T}'', fmt_args = [ArgTime utc]\<rparr>"

definition log_header_line :: "'f out_line" where
  "log_header_line =
     \<lparr>fmt = ''# Timestamp,BPM,Onset,Pitch(Hz),ProcessTime(ms)'', fmt_args = []\<rparr>"

text \<open>\<open>std::println\<close> on the log stream; nothing is written to a stream that is not open.\<close>

definition println_log :: "'f out_line \<Rightarrow> ('f, 'e) DetectorState \<Rightarrow> ('f, 'e) DetectorState" where
  "println_log line state =
     (case log_file state of
        None \<Rightarrow> state
      | Some written \<Rightarrow> state\<lparr>log_file := Some (written @ [line])\<rparr>)"

text \<open>The first part of \<open>initialize\<close> (impl.cpp 281-296); the file is opened truncated.\<close>

definition open_log :: "init_env \<Rightarrow> ('f, 'e) DetectorState \<Rightarrow> string + ('f, 'e) DetectorState" where
  "open_log env current_state =
     (if log_enabled current_state
      then if \<not> log_opens env then Inl ''failed to open log file''
           else let s1 = current_state\<lparr>log_file := Some []\<rparr>;
                    s2 = println_log (log_title_line (utc_current_time env)) s1
                in Inr (println_log log_header_line s2)
      else Inr current_state)"

definition initialize ::
  "init_env \<Rightarrow> ('f, 'e) DetectorState \<Rightarrow> string + ('f, 'e) DetectorState" where
  "initialize env current_state =
     (case open_log env current_state of
        Inl msg \<Rightarrow> Inl msg
      | Inr s1 \<Rightarrow>
          let s2 = s1\<lparr>main_loop := main_loop_new_ok env\<rparr>
          in if \<not> main_loop s2 then Inl ''failed to create main loop''
             else if \<not> tempo_new_ok env then Inl ''failed to create aubio tempo''
             else if \<not> input_vector_new_ok env \<or> \<not> output_vector_new_ok env
                  then Inl ''failed to create aubio buffers''
             else if \<not> onset_new_ok env then Inl ''failed to create aubio onset''
             else if pitch_enabled s2 \<and> (\<not> pitch_new_ok env \<or> \<not> pitch_buffer_new_ok env)
                  then Inl ''failed to create aubio pitch''
             else if \<not> stream_new_ok env then Inl ''failed to  create stream''
             else let s3 = s2\<lparr>stream := True\<rparr>
                  in if \<not> stream_connect_ok env then Inl ''failed to connect to stream''
                     else Inr (s3\<lparr>event_src := add_event_ok env\<rparr>))"

section \<open>Command line and exit code (main.cpp)\<close>

definition isdigit :: "char \<Rightarrow> bool" where
  "isdigit c = (48 \<le> (of_char c :: nat) \<and> (of_char c :: nat) \<le> 57)"

definition max_before_multiply :: nat where
  "max_before_multiply = (2 ^ 32 - 1) div 10"

definition max_last_digit :: nat where
  "max_last_digit = (2 ^ 32 - 1) mod 10"

text \<open>
  \<open>parseU32\<close> returns the value and an error message, \<open>None\<close> for the null pointer. The
  accumulator is a \<open>uint32_t\<close>: its update is taken modulo \<open>2^32\<close>.
\<close>

fun parseU32_loop :: "string \<Rightarrow> nat \<Rightarrow> nat \<times> string option" where
  "parseU32_loop [] parsed_value = (parsed_value, None)"
| "parseU32_loop (raw_char # rest) parsed_value =
     (if \<not> isdigit raw_char then (0, Some ''nondigit'')
      else let digit_value = (of_char raw_char :: nat) - 48
           in if parsed_value > max_before_multiply
                 \<or> (parsed_value = max_before_multiply \<and> digit_value > max_last_digit)
              then (0, Some ''nondigit'')
              else parseU32_loop rest ((parsed_value * 10 + digit_value) mod 2 ^ 32))"

definition parseU32 :: "string \<Rightarrow> nat \<times> string option" where
  "parseU32 input = (if input = [] then (0, Some ''empty'') else parseU32_loop input 0)"

definition kDefaultBufferSize :: nat where
  "kDefaultBufferSize = 512"

definition kMinBufferSize :: nat where
  "kMinBufferSize = 64"

definition kMaxBufferSize :: nat where
  "kMaxBufferSize = 8192"

record Options =
  buffer_size_opt :: nat
  logging :: bool
  stats :: bool
  pitch :: bool
  visual :: bool

definition default_Options :: Options where
  "default_Options =
     \<lparr>buffer_size_opt = kDefaultBufferSize, logging = True, stats = True, pitch = False,
      visual = True\<rparr>"

datatype Kind = Help | Invalid

record ParseError =
  kind :: Kind
  message :: string

text \<open>The loop of \<open>parseArgs\<close> over the arguments after the program name.\<close>

fun parseArgs_loop :: "string list \<Rightarrow> Options \<Rightarrow> bool \<Rightarrow> ParseError + Options" where
  "parseArgs_loop [] options saw_positional = Inr options"
| "parseArgs_loop (arg # rest) options saw_positional =
     (if arg = ''--help'' \<or> arg = ''-h'' then Inl \<lparr>kind = Help, message = []\<rparr>
      else if arg \<noteq> [] \<and> hd arg \<noteq> CHR ''-''
      then if saw_positional
           then Inl \<lparr>kind = Invalid,
                     message = ''Too many positional arguments (only buffer_size is allowed)/''\<rparr>
           else case parseU32 arg of (end_ptr, parse_err) \<Rightarrow>
                  if parse_err \<noteq> None
                  then Inl \<lparr>kind = Invalid,
                            message = ''buffer_size must be a base-10 unsigned integer''\<rparr>
                  else if end_ptr < kMinBufferSize \<or> end_ptr > kMaxBufferSize
                  then Inl \<lparr>kind = Invalid, message = ''buffer_size out of range [64, 8192]''\<rparr>
                  else parseArgs_loop rest (options\<lparr>buffer_size_opt := end_ptr\<rparr>) True
      else if arg = ''--no-log'' then parseArgs_loop rest (options\<lparr>logging := False\<rparr>) saw_positional
      else if arg = ''--no-stats'' then parseArgs_loop rest (options\<lparr>stats := False\<rparr>) saw_positional
      else if arg = ''--pitch'' then parseArgs_loop rest (options\<lparr>pitch := True\<rparr>) saw_positional
      else if arg = ''--no-visual'' then parseArgs_loop rest (options\<lparr>visual := False\<rparr>) saw_positional
      else Inl \<lparr>kind = Invalid, message = ''Unknown option '' @ [CHR 0x27] @ arg @ [CHR 0x27]\<rparr>)"

definition parseArgs :: "string list \<Rightarrow> ParseError + Options" where
  "parseArgs args = parseArgs_loop (drop 1 args) default_Options False"

text \<open>
  \<open>main\<close>: the exit code. \<open>run_raises\<close> tells whether a \<open>std::exception\<close> leaves
  \<open>run()\<close>; the static flag \<open>quit\<close> is \<open>false\<close> when the detector is built.
\<close>

definition main ::
  "string list \<Rightarrow> init_env \<Rightarrow> ('f, 'e) analysis_engine \<Rightarrow> 'e \<Rightarrow> (nat \<Rightarrow> nat)
     \<Rightarrow> ('f::zero) run_op list \<Rightarrow> bool \<Rightarrow> int option" where
  "main args env engine aubio0 system_clock ops run_raises =
     (case parseArgs args of
        Inl err \<Rightarrow> (if kind err = Help then Some 0 else Some 1)
      | Inr options \<Rightarrow>
          let detector = DetectorState_ctor (buffer_size_opt options) (logging options)
                           (stats options) (pitch options) (visual options) False aubio0
          in (case initialize env detector of
                Inl msg \<Rightarrow> Some 1
              | Inr ready \<Rightarrow>
                  if run_raises then Some 1
                  else (case run engine system_clock ops ready of
                          None \<Rightarrow> None
                        | Some finished \<Rightarrow> Some 0)))"

section \<open>Abstractions used in the statements\<close>

subsection \<open>The queue as a list\<close>

text \<open>
  \<open>queue_ok\<close> is the invariant of the ring: the array has its \<open>kEventCap\<close> slots and both
  indices are below \<open>kEventCap\<close>. \<open>queue_contents\<close> lists the slots from the read index up
  to the write index, oldest first. \<open>log_lines\<close> are the lines the consumer writes for a
  list of events when logging is on, and \<open>drained\<close> is the state a drain ends in.
\<close>

definition queue_ok :: "('f, 'e) DetectorState \<Rightarrow> bool" where
  "queue_ok state =
     (length (events state) = kEventCap \<and> ev_head state < kEventCap \<and> ev_tail state < kEventCap)"

definition queue_size :: "('f, 'e) DetectorState \<Rightarrow> nat" where
  "queue_size state = (ev_head state + kEventCap - ev_tail state) mod kEventCap"

definition queue_contents :: "('f, 'e) DetectorState \<Rightarrow> 'f Event list" where
  "queue_contents state =
     map (\<lambda>i. events state ! ((ev_tail state + i) mod kEventCap)) [0 ..< queue_size state]"

fun log_lines :: "(nat \<Rightarrow> nat) \<Rightarrow> nat \<Rightarrow> ('f::zero) Event list \<Rightarrow> 'f out_line list" where
  "log_lines system_clock n [] = []"
| "log_lines system_clock n (event # rest) =
     (if is_beat event \<or> is_onset event
      then log_event_line (system_clock n) event # log_lines system_clock (n + 1) rest
      else log_lines system_clock n rest)"

definition drained :: "(nat \<Rightarrow> nat) \<Rightarrow> ('f::zero, 'e) DetectorState \<Rightarrow> ('f, 'e) DetectorState" where
  "drained system_clock state =
     (case log_file state of
        Some written \<Rightarrow>
          if log_enabled state
          then state\<lparr>ev_tail := ev_head state,
                     log_file := Some (written
                                       @ log_lines system_clock (clock_reads state)
                                           (queue_contents state)),
                     clock_reads := clock_reads state
                                    + length (log_lines system_clock (clock_reads state)
                                                (queue_contents state))\<rparr>
          else state\<lparr>ev_tail := ev_head state\<rparr>
      | None \<Rightarrow> state\<lparr>ev_tail := ev_head state\<rparr>)"

subsection \<open>Sample inputs\<close>

text \<open>Events told apart by their tempo, and a detector as the constructor leaves it.\<close>

definition numbered_event :: "nat \<Rightarrow> real Event" where
  "numbered_event i =
     \<lparr>is_beat = True, is_onset = False, bpm = real i, pitch_hz = 0, process_ms = 0\<rparr>"

definition fresh_detector :: "(real, unit) DetectorState" where
  "fresh_detector = DetectorState_ctor 512 True True False True False ()"

subsection \<open>The blocks of a view\<close>

text \<open>
  \<open>full_blocks samples b\<close>: the \<open>length samples div b\<close> consecutive runs of \<open>b\<close> samples,
  from the start.
\<close>

definition full_blocks :: "'f list \<Rightarrow> nat \<Rightarrow> 'f list list" where
  "full_blocks samples b = map (\<lambda>i. take b (drop (i * b) samples)) [0 ..< length samples div b]"

text \<open>
  An analysis engine that detects nothing and keeps, as its state, the blocks handed to
  \<open>aubio_tempo_do\<close>.
\<close>

definition recording_engine :: "(real, real list list) analysis_engine" where
  "recording_engine =
     \<lparr>aubio_tempo_do = (\<lambda>seen block. (False, seen @ [block])),
      aubio_onset_do = (\<lambda>seen block. (False, seen)),
      aubio_pitch_do = (\<lambda>seen block. (0, seen)),
      aubio_tempo_get_bpm = (\<lambda>seen. 0)\<rparr>"

definition recording_detector :: "(real, real list list) DetectorState" where
  "recording_detector = DetectorState_ctor 2 True True False True False []"

text \<open>The lease's destructor: the buffer goes back to the stream it was taken from.\<close>

definition requeued :: "('f, 'e) DetectorState \<Rightarrow> ('f, 'e) DetectorState" where
  "requeued state =
     (if stream state then state\<lparr>pw_calls := pw_calls state @ [PwStreamQueueBuffer]\<rparr>
      else state)"

definition sample_spa_buffer :: "real list option \<Rightarrow> nat \<Rightarrow> int \<Rightarrow> real spa_buffer" where
  "sample_spa_buffer memory byte_count stride =
     \<lparr>datas0 = \<lparr>data = memory, chunk = Some \<lparr>chunk_size = byte_count, chunk_stride = stride\<rparr>\<rparr>\<rparr>"

subsection \<open>The rolling buffer\<close>

text \<open>
  \<open>bpm_ok\<close> is the invariant of the rolling buffer: ten slots, the write position below
  ten, at most ten valid entries.
\<close>

definition bpm_ok :: "'f BPMBuffer \<Rightarrow> bool" where
  "bpm_ok b =
     (length (bpm_values b) = kBPMCapacity \<and> bpm_head b < kBPMCapacity
      \<and> bpm_count b \<le> kBPMCapacity)"

subsection \<open>Observations of the lifecycle\<close>

text \<open>
  \<open>disconnects\<close> counts the calls of \<open>pw_stream_disconnect\<close> made so far;
  \<open>requested_active\<close> is the activity last asked of the transport with
  \<open>pw_stream_set_active\<close>, if any. \<open>lifecycle_of\<close> gathers what the shutdown paths read
  and the number of disconnects; \<open>indices_of\<close> the two indices of the ring.
\<close>

definition disconnects :: "('f, 'e) DetectorState \<Rightarrow> nat" where
  "disconnects state = count_list (pw_calls state) PwStreamDisconnect"

fun latest_set_active :: "pw_call list \<Rightarrow> bool option \<Rightarrow> bool option" where
  "latest_set_active [] r = r"
| "latest_set_active (PwStreamSetActive b # calls) r = latest_set_active calls (Some b)"
| "latest_set_active (PwStreamDisconnect # calls) r = latest_set_active calls r"
| "latest_set_active (PwMainLoopQuit # calls) r = latest_set_active calls r"
| "latest_set_active (PwLoopSignalEvent # calls) r = latest_set_active calls r"
| "latest_set_active (PwStreamQueueBuffer # calls) r = latest_set_active calls r"

definition requested_active :: "('f, 'e) DetectorState \<Rightarrow> bool option" where
  "requested_active state = latest_set_active (pw_calls state) None"

definition lifecycle_of ::
  "('f, 'e) DetectorState \<Rightarrow> bool \<times> bool \<times> bool \<times> bool \<times> bool \<times> bool \<times> nat" where
  "lifecycle_of state =
     (quit state, stopping state, stream state, main_loop state, instance_set state,
      quit_monitor state, disconnects state)"

definition is_process :: "'f run_op \<Rightarrow> bool" where
  "is_process op = (case op of OpProcess dequeued \<Rightarrow> True | _ \<Rightarrow> False)"

definition is_paused_notification :: "'f run_op \<Rightarrow> bool" where
  "is_paused_notification op =
     (case op of OpStateChanged new_state error \<Rightarrow> new_state = PW_STREAM_STATE_PAUSED
      | _ \<Rightarrow> False)"

text \<open>
  A detector as a successful \<open>initialize\<close> leaves it: log open with its two first
  lines, main loop, stream and event source in place.
\<close>

definition connected_detector :: "(real, real list list) DetectorState" where
  "connected_detector =
     recording_detector
       \<lparr>main_loop := True, stream := True,
        log_file := Some [log_title_line 0, log_header_line], event_src := True\<rparr>"

subsection \<open>Events in the queue\<close>

text \<open>
  \<open>detected_events\<close>: every event waiting in the queue is a beat or an onset, and
  carries a pitch of zero when pitch detection is off.
\<close>

definition detected_events :: "('f::zero, 'e) DetectorState \<Rightarrow> bool" where
  "detected_events state =
     (\<forall>event \<in> set (queue_contents state).
        (is_beat event \<or> is_onset event)
        \<and> (\<not> pitch_enabled state \<longrightarrow> pitch_hz event = 0))"

text \<open>An environment in which every step of \<open>initialize\<close> succeeds.\<close>

definition good_env :: init_env where
  "good_env =
     \<lparr>utc_current_time = 0, log_opens = True, main_loop_new_ok = True, tempo_new_ok = True,
      input_vector_new_ok = True, output_vector_new_ok = True, onset_new_ok = True,
      pitch_new_ok = True, pitch_buffer_new_ok = True, stream_new_ok = True,
      stream_connect_ok = True, add_event_ok = True\<rparr>"

subsection \<open>Reading the command line\<close>

text \<open>
  \<open>positional\<close>: an argument that \<open>parseArgs\<close> takes for the buffer size; \<open>numeric\<close>: a
  non-empty string of decimal digits, \<open>decimal\<close> its value; \<open>valid_size\<close>: a numeric
  argument with a value from 64 to 8192; \<open>help_flag\<close>: one of the two help options.
\<close>

definition positional :: "string \<Rightarrow> bool" where
  "positional arg = (arg \<noteq> [] \<and> hd arg \<noteq> CHR ''-'')"

definition numeric :: "string \<Rightarrow> bool" where
  "numeric arg = (arg \<noteq> [] \<and> (\<forall>c \<in> set arg. isdigit c))"

definition decimal_from :: "nat \<Rightarrow> string \<Rightarrow> nat" where
  "decimal_from acc arg = foldl (\<lambda>a c. a * 10 + ((of_char c :: nat) - 48)) acc arg"

definition decimal :: "string \<Rightarrow> nat" where
  "decimal arg = decimal_from 0 arg"

definition valid_size :: "string \<Rightarrow> bool" where
  "valid_size arg = (numeric arg \<and> 64 \<le> decimal arg \<and> decimal arg \<le> 8192)"

definition help_flag :: "string \<Rightarrow> bool" where
  "help_flag arg = (arg = ''--help'' \<or> arg = ''-h'')"

text \<open>An environment in which connecting the stream fails.\<close>

definition broken_env :: init_env where
  "broken_env = good_env\<lparr>stream_connect_ok := False\<rparr>"

section \<open>Ring arithmetic\<close>

lemma mod_below_twice:
  fixes a n :: nat
  assumes "a < 2 * n"
  shows "a mod n = (if a < n then a else a - n)"
proof (cases "a < n")
  case True
  then show ?thesis by simp
next
  case False
  then have "n \<le> a" by simp
  then have "a mod n = (a - n) mod n" by (rule le_mod_geq)
  also have "\<dots> = a - n" using assms False by simp
  finally show ?thesis using False by simp
qed

lemma kEventCap_pos: "0 < kEventCap" "1 < kEventCap"
  by (simp_all add: kEventCap_def)

lemma ring_size:
  fixes h t n :: nat
  assumes "h < n" "t < n"
  shows "(h + n - t) mod n = (if t \<le> h then h - t else h + n - t)"
proof -
  have "h + n - t < 2 * n" using assms by arith
  then have "(h + n - t) mod n = (if h + n - t < n then h + n - t else h + n - t - n)"
    by (rule mod_below_twice)
  then show ?thesis using assms by (auto split: if_splits)
qed

lemma ring_next:
  fixes h n :: nat
  assumes "h < n"
  shows "(h + 1) mod n = (if h + 1 = n then 0 else h + 1)"
  using assms by (auto simp add: mod_below_twice)

lemma ring_slot:
  fixes t i n :: nat
  assumes "t < n" "i < n"
  shows "(t + i) mod n = (if t + i < n then t + i else t + i - n)"
proof -
  have "t + i < 2 * n" using assms by arith
  then show ?thesis by (rule mod_below_twice)
qed

lemma ring_next_Suc:
  fixes h n :: nat
  assumes "h < n"
  shows "Suc h mod n = (if Suc h = n then 0 else Suc h)"
  using ring_next [OF assms] by simp

lemma ring_full_iff:
  fixes h t n :: nat
  assumes "h < n" "t < n"
  shows "((h + 1) mod n = t) = ((h + n - t) mod n = n - 1)"
  unfolding ring_next [OF assms(1)] ring_size [OF assms]
  using assms by (auto split: if_splits)

lemma ring_size_push_room:
  fixes h t n :: nat
  assumes "h < n" "t < n" "(h + 1) mod n \<noteq> t"
  shows "((h + 1) mod n + n - t) mod n = (h + n - t) mod n + 1"
proof -
  have h': "(h + 1) mod n < n" using assms by simp
  show ?thesis
    using assms(3) unfolding ring_size [OF h' assms(2)] ring_size [OF assms(1,2)]
    unfolding ring_next [OF assms(1)]
    using assms(1,2) by (auto split: if_splits)
qed

lemma ring_size_push_full:
  fixes h t n :: nat
  assumes "h < n" "t < n" "(h + 1) mod n = t"
  shows "((h + 1) mod n + n - (t + 1) mod n) mod n = n - 1"
proof -
  have h': "(h + 1) mod n < n" and t': "(t + 1) mod n < n" using assms by simp_all
  show ?thesis
    using assms(3) unfolding ring_size [OF h' t']
    unfolding ring_next [OF assms(1)] ring_next [OF assms(2)]
    using assms(1,2) by (auto split: if_splits)
qed

lemma queue_size_less: "queue_ok s \<Longrightarrow> queue_size s < kEventCap"
  by (simp add: queue_size_def kEventCap_pos)

lemma queue_ok_spsc_push: "queue_ok s \<Longrightarrow> queue_ok (spsc_push e s)"
  by (simp add: queue_ok_def spsc_push_def Let_def kEventCap_pos)

lemma spsc_push_head: "ev_head (spsc_push e s) = (ev_head s + 1) mod kEventCap"
  by (simp add: spsc_push_def Let_def)

lemma spsc_push_tail:
  "ev_tail (spsc_push e s) =
     (if (ev_head s + 1) mod kEventCap = ev_tail s then (ev_tail s + 1) mod kEventCap
      else ev_tail s)"
  by (simp add: spsc_push_def Let_def)

lemma spsc_push_events: "events (spsc_push e s) = (events s)[ev_head s := e]"
  by (simp add: spsc_push_def Let_def)

lemma full_iff:
  assumes "queue_ok s"
  shows "((ev_head s + 1) mod kEventCap = ev_tail s) = (queue_size s = kEventCap - 1)"
  unfolding queue_size_def
  using assms unfolding queue_ok_def by (intro ring_full_iff) simp_all

lemma queue_size_push:
  assumes "queue_ok s"
  shows "queue_size (spsc_push e s) =
           (if queue_size s = kEventCap - 1 then kEventCap - 1 else queue_size s + 1)"
proof -
  have h: "ev_head s < kEventCap" and t: "ev_tail s < kEventCap"
    using assms by (simp_all add: queue_ok_def)
  show ?thesis
  proof (cases "(ev_head s + 1) mod kEventCap = ev_tail s")
    case True
    have "ev_tail (spsc_push e s) = (ev_tail s + 1) mod kEventCap"
      using True by (simp add: spsc_push_tail)
    then have "queue_size (spsc_push e s) =
        ((ev_head s + 1) mod kEventCap + kEventCap - (ev_tail s + 1) mod kEventCap) mod kEventCap"
      by (simp only: queue_size_def spsc_push_head)
    also have "\<dots> = kEventCap - 1"
      by (rule ring_size_push_full [OF h t True])
    finally show ?thesis using True full_iff [OF assms] by simp
  next
    case False
    have "ev_tail (spsc_push e s) = ev_tail s"
      using False by (simp add: spsc_push_tail)
    then have "queue_size (spsc_push e s) =
        ((ev_head s + 1) mod kEventCap + kEventCap - ev_tail s) mod kEventCap"
      by (simp only: queue_size_def spsc_push_head)
    also have "\<dots> = (ev_head s + kEventCap - ev_tail s) mod kEventCap + 1"
      by (rule ring_size_push_room [OF h t False])
    finally show ?thesis using False full_iff [OF assms] by (simp add: queue_size_def)
  qed
qed

lemma ring_slot_head:
  fixes h t n :: nat
  assumes "h < n" "t < n"
  shows "(t + (h + n - t) mod n) mod n = h"
proof -
  have sz: "(h + n - t) mod n < n" using assms by simp
  show ?thesis
    unfolding ring_slot [OF assms(2) sz]
    unfolding ring_size [OF assms]
    using assms by (auto split: if_splits)
qed

lemma ring_slot_not_head:
  fixes h t n i :: nat
  assumes "h < n" "t < n" "i < (h + n - t) mod n"
  shows "(t + i) mod n \<noteq> h"
proof -
  have sz: "(h + n - t) mod n < n" using assms by simp
  then have i: "i < n" using assms(3) by simp
  show ?thesis
    using assms(3) unfolding ring_slot [OF assms(2) i]
    unfolding ring_size [OF assms(1,2)]
    using assms(1,2) by (auto split: if_splits)
qed

lemma ring_slot_shift:
  fixes t n i :: nat
  assumes "t < n" "i + 1 < n"
  shows "((t + 1) mod n + i) mod n = (t + (i + 1)) mod n"
proof -
  have "((t + 1) mod n + i) mod n = ((t + 1) + i) mod n"
    by (rule mod_add_left_eq)
  then show ?thesis by (simp add: add.assoc add.commute)
qed

lemma queue_contents_push:
  assumes "queue_ok s"
  shows "queue_contents (spsc_push e s) =
           (if queue_size s = kEventCap - 1 then tl (queue_contents s) else queue_contents s)
           @ [e]"
proof -
  have h: "ev_head s < kEventCap" and t: "ev_tail s < kEventCap"
    and len: "length (events s) = kEventCap"
    using assms by (simp_all add: queue_ok_def)
  have at_head: "(ev_tail s + queue_size s) mod kEventCap = ev_head s"
    unfolding queue_size_def by (rule ring_slot_head [OF h t])
  have off_head: "ev_head s \<noteq> (ev_tail s + i) mod kEventCap" if "i < queue_size s" for i
    using ring_slot_not_head [OF h t, of i] that unfolding queue_size_def by simp
  show ?thesis
  proof (cases "queue_size s = kEventCap - 1")
    case False
    then have room: "(ev_head s + 1) mod kEventCap \<noteq> ev_tail s"
      using full_iff [OF assms] by simp
    have tl': "ev_tail (spsc_push e s) = ev_tail s"
      using room by (simp add: spsc_push_tail)
    have sz': "queue_size (spsc_push e s) = queue_size s + 1"
      using False queue_size_push [OF assms] by simp
    have "queue_contents (spsc_push e s) =
            map (\<lambda>i. (events s)[ev_head s := e] ! ((ev_tail s + i) mod kEventCap))
              [0 ..< queue_size s + 1]"
      by (simp only: queue_contents_def tl' sz' spsc_push_events)
    also have "\<dots> = map (\<lambda>i. (events s)[ev_head s := e] ! ((ev_tail s + i) mod kEventCap))
              [0 ..< queue_size s] @ [(events s)[ev_head s := e] ! ev_head s]"
      by (simp add: at_head)
    also have "map (\<lambda>i. (events s)[ev_head s := e] ! ((ev_tail s + i) mod kEventCap))
              [0 ..< queue_size s] = queue_contents s"
      unfolding queue_contents_def
      by (rule map_cong) (simp_all add: off_head)
    also have "(events s)[ev_head s := e] ! ev_head s = e"
      using h len by simp
    finally show ?thesis using False by simp
  next
    case True
    then have full: "(ev_head s + 1) mod kEventCap = ev_tail s"
      using full_iff [OF assms] by simp
    have tl': "ev_tail (spsc_push e s) = (ev_tail s + 1) mod kEventCap"
      using full by (simp add: spsc_push_tail)
    have sz': "queue_size (spsc_push e s) = kEventCap - 1"
      using True queue_size_push [OF assms] by simp
    have len_old: "length (queue_contents s) = kEventCap - 1"
      by (simp add: queue_contents_def True)
    have len_new: "length (queue_contents (spsc_push e s)) = kEventCap - 1"
      by (simp add: queue_contents_def sz')
    have "queue_contents (spsc_push e s) = tl (queue_contents s) @ [e]"
    proof (rule nth_equalityI)
      show "length (queue_contents (spsc_push e s)) = length (tl (queue_contents s) @ [e])"
        using kEventCap_pos by (simp add: len_old len_new)
    next
      fix i assume "i < length (queue_contents (spsc_push e s))"
      then have i: "i < kEventCap - 1" by (simp add: len_new)
      have slot: "((ev_tail s + 1) mod kEventCap + i) mod kEventCap
                    = (ev_tail s + (i + 1)) mod kEventCap"
        by (simp add: mod_simps)
      have lhs: "queue_contents (spsc_push e s) ! i
                   = (events s)[ev_head s := e] ! ((ev_tail s + (i + 1)) mod kEventCap)"
        unfolding queue_contents_def sz' tl' spsc_push_events
        using i by (simp add: mod_simps)
      show "queue_contents (spsc_push e s) ! i = (tl (queue_contents s) @ [e]) ! i"
      proof (cases "i + 1 < kEventCap - 1")
        case inner: True
        then have "i + 1 < queue_size s" using True by simp
        then have "ev_head s \<noteq> (ev_tail s + (i + 1)) mod kEventCap" by (rule off_head)
        then have "queue_contents (spsc_push e s) ! i
                     = events s ! ((ev_tail s + (i + 1)) mod kEventCap)"
          using lhs by simp
        moreover have "(tl (queue_contents s) @ [e]) ! i = queue_contents s ! (i + 1)"
          using inner len_old by (simp add: nth_append nth_tl)
        moreover have "queue_contents s ! (i + 1)
                         = events s ! ((ev_tail s + (i + 1)) mod kEventCap)"
          unfolding queue_contents_def True
          using inner by simp
        ultimately show ?thesis by simp
      next
        case last: False
        then have eq: "i + 1 = kEventCap - 1" using i by simp
        then have "(ev_tail s + (i + 1)) mod kEventCap = ev_head s"
          using at_head True by simp
        then have "queue_contents (spsc_push e s) ! i = e"
          using lhs h len by simp
        moreover have "(tl (queue_contents s) @ [e]) ! i = e"
          using eq len_old by (simp add: nth_append)
        ultimately show ?thesis by simp
      qed
    qed
    then show ?thesis using True by simp
  qed
qed

lemma length_queue_contents: "length (queue_contents s) = queue_size s"
  by (simp add: queue_contents_def)

lemma queue_size_zero_iff:
  assumes "queue_ok s"
  shows "(queue_size s = 0) = (ev_tail s = ev_head s)"
proof -
  have h: "ev_head s < kEventCap" and t: "ev_tail s < kEventCap"
    using assms by (simp_all add: queue_ok_def)
  show ?thesis
    unfolding queue_size_def ring_size [OF h t]
    using h t by (auto split: if_splits)
qed

lemma ring_size_pop:
  fixes h t n :: nat
  assumes "h < n" "t < n" "t \<noteq> h"
  shows "(h + n - (t + 1) mod n) mod n = (h + n - t) mod n - 1"
proof -
  have t': "(t + 1) mod n < n" using assms by simp
  show ?thesis
    unfolding ring_size [OF assms(1) t'] ring_size [OF assms(1,2)]
    unfolding ring_next [OF assms(2)]
    using assms by (auto split: if_splits)
qed

lemma drain_body_fields:
  "fst (drain_body c s) = events s ! ev_tail s"
  "ev_tail (snd (drain_body c s)) = (ev_tail s + 1) mod kEventCap"
  "ev_head (snd (drain_body c s)) = ev_head s"
  "events (snd (drain_body c s)) = events s"
  "log_enabled (snd (drain_body c s)) = log_enabled s"
  by (simp_all add: drain_body_def Let_def split: option.split)

lemma queue_ok_drain_body: "queue_ok s \<Longrightarrow> queue_ok (snd (drain_body c s))"
  by (simp add: queue_ok_def drain_body_fields kEventCap_pos)

lemma queue_size_drain_body:
  assumes "queue_ok s" "ev_tail s \<noteq> ev_head s"
  shows "queue_size (snd (drain_body c s)) = queue_size s - 1"
proof -
  have h: "ev_head s < kEventCap" and t: "ev_tail s < kEventCap"
    using assms by (simp_all add: queue_ok_def)
  show ?thesis
    unfolding queue_size_def drain_body_fields
    by (rule ring_size_pop [OF h t assms(2)])
qed

lemma queue_contents_drain_body:
  assumes "queue_ok s" "ev_tail s \<noteq> ev_head s"
  shows "queue_contents s = events s ! ev_tail s # queue_contents (snd (drain_body c s))"
proof -
  have t: "ev_tail s < kEventCap" using assms by (simp add: queue_ok_def)
  have pos: "0 < queue_size s" using assms queue_size_zero_iff [of s] by simp
  have sz: "queue_size (snd (drain_body c s)) = queue_size s - 1"
    using assms by (rule queue_size_drain_body)
  have "[0 ..< queue_size s] = 0 # map Suc [0 ..< queue_size s - 1]"
    using pos by (metis Suc_pred' map_Suc_upt upt_conv_Cons)
  then have "queue_contents s = events s ! (ev_tail s mod kEventCap)
      # map (\<lambda>i. events s ! ((ev_tail s + Suc i) mod kEventCap)) [0 ..< queue_size s - 1]"
    unfolding queue_contents_def by (simp add: comp_def)
  also have "ev_tail s mod kEventCap = ev_tail s" using t by simp
  also have "map (\<lambda>i. events s ! ((ev_tail s + Suc i) mod kEventCap)) [0 ..< queue_size s - 1]
               = queue_contents (snd (drain_body c s))"
    unfolding queue_contents_def sz drain_body_fields
    by (rule map_cong) (simp_all add: mod_simps)
  finally show ?thesis .
qed

lemma drained_drain_body:
  assumes "queue_ok s" "ev_tail s \<noteq> ev_head s"
  shows "drained c (snd (drain_body c s)) = drained c s"
proof -
  define rest where "rest = queue_contents (snd (drain_body c s))"
  have split: "queue_contents s = events s ! ev_tail s # rest"
    unfolding rest_def using assms by (rule queue_contents_drain_body)
  have "drained c (snd (drain_body c s)) =
          (case log_file (snd (drain_body c s)) of
             Some written \<Rightarrow>
               if log_enabled s
               then (snd (drain_body c s))\<lparr>ev_tail := ev_head s,
                      log_file := Some (written
                                  @ log_lines c (clock_reads (snd (drain_body c s))) rest),
                      clock_reads := clock_reads (snd (drain_body c s))
                            + length (log_lines c (clock_reads (snd (drain_body c s))) rest)\<rparr>
               else (snd (drain_body c s))\<lparr>ev_tail := ev_head s\<rparr>
           | None \<Rightarrow> (snd (drain_body c s))\<lparr>ev_tail := ev_head s\<rparr>)"
    unfolding drained_def rest_def drain_body_fields ..
  also have "\<dots> = drained c s"
    unfolding drained_def split
    by (simp add: drain_body_def Let_def split: option.split)
  finally show ?thesis .
qed

lemma drain_loop_queue:
  assumes "queue_ok s"
  shows "drain_loop c acc s = Some (acc @ queue_contents s, drained c s)"
  using assms
proof (induction n \<equiv> "queue_size s" arbitrary: s acc)
  case 0
  then have eq: "ev_tail s = ev_head s" using queue_size_zero_iff [of s] by simp
  have "queue_contents s = []" using 0 by (simp add: queue_contents_def)
  moreover have "drained c s = s"
    using eq \<open>queue_contents s = []\<close>
    by (simp add: drained_def split: option.split)
  ultimately show ?case using eq by (subst drain_loop.simps) simp
next
  case (Suc n)
  then have ne: "ev_tail s \<noteq> ev_head s" using queue_size_zero_iff [of s] by simp
  obtain event s1 where body: "drain_body c s = (event, s1)" by (cases "drain_body c s")
  have ev: "event = events s ! ev_tail s" and s1: "s1 = snd (drain_body c s)"
    using body drain_body_fields(1) [of c s] by simp_all
  have ok1: "queue_ok s1" unfolding s1 using Suc.prems by (rule queue_ok_drain_body)
  have "queue_size s1 = queue_size s - 1"
    unfolding s1 using Suc.prems ne by (rule queue_size_drain_body)
  then have n: "n = queue_size s1" using Suc.hyps(2) by simp
  have "drain_loop c acc s = drain_loop c (acc @ [event]) s1"
    using ne body by (subst drain_loop.simps) simp
  also have "\<dots> = Some ((acc @ [event]) @ queue_contents s1, drained c s1)"
    using n ok1 by (rule Suc.hyps(1))
  also have "drained c s1 = drained c s"
    unfolding s1 using Suc.prems ne by (rule drained_drain_body)
  also have "(acc @ [event]) @ queue_contents s1 = acc @ queue_contents s"
    using queue_contents_drain_body [OF Suc.prems ne, of c] ev s1 by simp
  finally show ?case .
qed

lemma queue_size_le: "queue_ok s \<Longrightarrow> queue_size s \<le> kEventCap - 1"
  using queue_size_less [of s] by simp

lemma queue_contents_fold_push:
  assumes "queue_ok s"
  shows "queue_ok (fold spsc_push es s) \<and>
         queue_contents (fold spsc_push es s) =
           drop (length (queue_contents s @ es) - (kEventCap - 1)) (queue_contents s @ es)"
  using assms
proof (induction es arbitrary: s)
  case Nil
  then show ?case using queue_size_le [of s] by (simp add: length_queue_contents)
next
  case (Cons e es)
  have ok': "queue_ok (spsc_push e s)" using Cons.prems by (rule queue_ok_spsc_push)
  note IH = Cons.IH [OF ok']
  have le: "length (queue_contents s) \<le> kEventCap - 1"
    using queue_size_le [OF Cons.prems] by (simp add: length_queue_contents)
  show ?case
  proof (cases "queue_size s = kEventCap - 1")
    case False
    then have "queue_contents (spsc_push e s) = queue_contents s @ [e]"
      using queue_contents_push [OF Cons.prems] by simp
    then show ?thesis using IH by simp
  next
    case True
    then have c': "queue_contents (spsc_push e s) = tl (queue_contents s) @ [e]"
      using queue_contents_push [OF Cons.prems] by simp
    have len: "length (queue_contents s) = kEventCap - 1"
      using True by (simp add: length_queue_contents)
    then have ne: "queue_contents s \<noteq> []" using kEventCap_pos by auto
    then obtain x xs where xs: "queue_contents s = x # xs" by (cases "queue_contents s") auto
    have lxs: "Suc (length xs) = kEventCap - 1" using len xs by simp
    have i1: "length (queue_contents s @ e # es) - (kEventCap - 1) = Suc (length es)"
      using lxs xs by simp
    have i2: "length ((xs @ [e]) @ es) - (kEventCap - 1) = length es"
      using lxs by simp
    have "drop (length (queue_contents s @ e # es) - (kEventCap - 1)) (queue_contents s @ e # es)
            = drop (Suc (length es)) (x # xs @ e # es)"
      unfolding i1 by (simp only: xs append_Cons)
    also have "\<dots> = drop (length es) ((xs @ [e]) @ es)" by simp
    also have "\<dots> = drop (length ((xs @ [e]) @ es) - (kEventCap - 1)) ((xs @ [e]) @ es)"
      by (simp only: i2)
    finally have "drop (length (queue_contents s @ e # es) - (kEventCap - 1))
                    (queue_contents s @ e # es)
                  = drop (length (queue_contents (spsc_push e s) @ es) - (kEventCap - 1))
                      (queue_contents (spsc_push e s) @ es)"
      by (simp only: c' xs list.sel)
    then show ?thesis using IH by simp
  qed
qed

section \<open>The SPSC event queue: order and capacity\<close>

lemma queue_ok_ctor: "queue_ok (DetectorState_ctor b l s p v q a)"
  by (simp add: queue_ok_def DetectorState_ctor_def kEventCap_def)

lemma drain_after_pushes:
  assumes "queue_ok s" "ev_tail s = ev_head s"
  shows "map_option fst (drain c (fold spsc_push es s))
           = Some (drop (length es - (kEventCap - 1)) es)"
proof -
  have empty: "queue_contents s = []"
    using assms queue_size_zero_iff [OF assms(1)] by (simp add: queue_contents_def)
  have ok: "queue_ok (fold spsc_push es s)"
    and contents: "queue_contents (fold spsc_push es s)
                     = drop (length es - (kEventCap - 1)) es"
    using queue_contents_fold_push [OF assms(1), of es] empty by simp_all
  show ?thesis
    unfolding drain_def drain_loop_queue [OF ok] by (simp add: contents)
qed

text \<open>
  Claim C1, as the code has it. The ring of \<open>kEventCap = 1024\<close> slots holds at most
  \<open>kEventCap - 1 = 1023\<close> events, since equal indices mean empty. Starting from an empty
  queue, pushing at most 1023 events and then draining delivers exactly those events in
  push order; pushing more delivers exactly the last 1023 pushed, in push order. In both
  cases what is delivered is a suffix of what was pushed, so nothing is delivered twice or
  out of order.
\<close>

theorem spsc_push_then_drain:
  assumes "queue_ok s" "ev_tail s = ev_head s"
  shows "(length es \<le> kEventCap - 1 \<longrightarrow>
            map_option fst (drain c (fold spsc_push es s)) = Some es)
         \<and> (kEventCap - 1 < length es \<longrightarrow>
            map_option fst (drain c (fold spsc_push es s))
              = Some (drop (length es - (kEventCap - 1)) es))
         \<and> kEventCap - 1 = 1023"
proof -
  have "length es \<le> kEventCap - 1 \<longrightarrow> drop (length es - (kEventCap - 1)) es = es"
    by simp
  then show ?thesis
    unfolding drain_after_pushes [OF assms] by (simp add: kEventCap_def)
qed

theorem spsc_push_then_drain_witness:
  "queue_ok fresh_detector \<and> ev_tail fresh_detector = ev_head fresh_detector
   \<and> map_option fst (drain id (fold spsc_push
        [numbered_event 0, numbered_event 1, numbered_event 2] fresh_detector))
      = Some [numbered_event 0, numbered_event 1, numbered_event 2]
   \<and> map_option fst (drain id (fold spsc_push (map numbered_event [0 ..< 1025])
        fresh_detector))
      = Some (map numbered_event [2 ..< 1025])"
proof -
  have ok: "queue_ok fresh_detector"
    by (simp add: fresh_detector_def queue_ok_ctor)
  have empty: "ev_tail fresh_detector = ev_head fresh_detector"
    by (simp add: fresh_detector_def DetectorState_ctor_def)
  have few: "length [numbered_event 0, numbered_event 1, numbered_event 2] \<le> kEventCap - 1"
    by (simp add: kEventCap_def)
  have many: "kEventCap - 1 < length (map numbered_event [0 ..< 1025])"
    by (simp add: kEventCap_def)
  have "length (map numbered_event [0 ..< 1025]) - (kEventCap - 1) = 2"
    by (simp add: kEventCap_def)
  then have last: "drop (length (map numbered_event [0 ..< 1025]) - (kEventCap - 1))
          (map numbered_event [0 ..< 1025]) = map numbered_event [2 ..< 1025]"
    by (simp only: drop_map drop_upt add.left_neutral)
  have w1: "map_option fst (drain id (fold spsc_push
              [numbered_event 0, numbered_event 1, numbered_event 2] fresh_detector))
            = Some [numbered_event 0, numbered_event 1, numbered_event 2]"
    using spsc_push_then_drain [OF ok empty,
        of "[numbered_event 0, numbered_event 1, numbered_event 2]" id] few
    by blast
  have w2: "map_option fst (drain id (fold spsc_push (map numbered_event [0 ..< 1025])
              fresh_detector))
            = Some (map numbered_event [2 ..< 1025])"
    using spsc_push_then_drain [OF ok empty, of "map numbered_event [0 ..< 1025]" id] many
    unfolding last by blast
  show ?thesis using ok empty w1 w2 by blast
qed

text \<open>
  Claim C1 as stated fails at \<open>k = N = 1024\<close>: of 1024 events pushed into the empty queue
  the drain delivers the last 1023, the first one having been overwritten.
\<close>

theorem spsc_capacity_counterexample:
  "map_option fst (drain id (fold spsc_push (map numbered_event [0 ..< 1024]) fresh_detector))
     = Some (map numbered_event [1 ..< 1024])
   \<and> map numbered_event [1 ..< 1024] \<noteq> map numbered_event [0 ..< 1024]"
proof -
  have ok: "queue_ok fresh_detector"
    by (simp add: fresh_detector_def queue_ok_ctor)
  have empty: "ev_tail fresh_detector = ev_head fresh_detector"
    by (simp add: fresh_detector_def DetectorState_ctor_def)
  have "length (map numbered_event [0 ..< 1024]) - (kEventCap - 1) = 1"
    by (simp add: kEventCap_def)
  then have "drop (length (map numbered_event [0 ..< 1024]) - (kEventCap - 1))
          (map numbered_event [0 ..< 1024]) = map numbered_event [1 ..< 1024]"
    by (simp only: drop_map drop_upt add.left_neutral)
  then have "map_option fst (drain id (fold spsc_push (map numbered_event [0 ..< 1024])
               fresh_detector)) = Some (map numbered_event [1 ..< 1024])"
    using drain_after_pushes [OF ok empty, of id "map numbered_event [0 ..< 1024]"] by simp
  moreover have "length (map numbered_event [1 ..< 1024])
                   \<noteq> length (map numbered_event [0 ..< 1024])"
    by simp
  then have "map numbered_event [1 ..< 1024] \<noteq> map numbered_event [0 ..< 1024]"
    by metis
  ultimately show ?thesis by simp
qed

section \<open>Blocks of a buffer view\<close>

lemma for_blocks_from:
  assumes "0 < view_block_size view" "k \<le> m"
  shows "for_blocks body view (k * view_block_size view) (m * view_block_size view) s
           = Some (fold body
                     (map (\<lambda>i. take (view_block_size view)
                                 (drop (i * view_block_size view) (view_samples view)))
                          [k ..< m]) s)"
  using assms(2)
proof (induction d \<equiv> "m - k" arbitrary: k s)
  case 0
  then have "k = m" by simp
  then show ?case by (subst for_blocks.simps) simp
next
  case (Suc d)
  then have lt: "k < m" and d: "d = m - Suc k" and le: "Suc k \<le> m" by simp_all
  have ne: "k * view_block_size view \<noteq> m * view_block_size view"
    using lt assms(1) by simp
  have "for_blocks body view (k * view_block_size view) (m * view_block_size view) s
          = for_blocks body view (Suc k * view_block_size view) (m * view_block_size view)
              (body (subspan (view_samples view) (k * view_block_size view)
                       (view_block_size view)) s)"
    using ne by (subst for_blocks.simps) (simp add: add.commute)
  also have "\<dots> = Some (fold body
                     (map (\<lambda>i. take (view_block_size view)
                                 (drop (i * view_block_size view) (view_samples view)))
                          [Suc k ..< m])
                     (body (subspan (view_samples view) (k * view_block_size view)
                       (view_block_size view)) s))"
    using d le by (rule Suc.hyps(1))
  also have "\<dots> = Some (fold body
                     (map (\<lambda>i. take (view_block_size view)
                                 (drop (i * view_block_size view) (view_samples view)))
                          [k ..< m]) s)"
    using lt by (simp add: upt_conv_Cons subspan_def)
  finally show ?case .
qed

lemma for_each_block_fold:
  assumes "0 < view_block_size view"
  shows "for_each_block body view s
           = Some (fold body (full_blocks (view_samples view) (view_block_size view)) s)"
  using for_blocks_from [OF assms, of 0 "length (view_samples view) div view_block_size view" body s]
  by (simp add: for_each_block_def blocks_begin_def blocks_end_def full_blocks_def)

lemma fold_snoc_collect: "fold (\<lambda>block yielded. yielded @ [block]) xs acc = acc @ xs"
  by (induction xs arbitrary: acc) simp_all

lemma blocks_full:
  assumes "0 < view_block_size view"
  shows "blocks view = Some (full_blocks (view_samples view) (view_block_size view))"
  unfolding blocks_def for_each_block_fold [OF assms] by (simp add: fold_snoc_collect)

lemma length_full_blocks: "length (full_blocks samples b) = length samples div b"
  by (simp add: full_blocks_def)

lemma full_blocks_length_each:
  assumes "block \<in> set (full_blocks samples b)"
  shows "length block = b"
proof -
  from assms obtain i where i: "i < length samples div b"
    and block: "block = take b (drop (i * b) samples)"
    by (auto simp add: full_blocks_def)
  have "Suc i * b \<le> (length samples div b) * b" using i by (simp add: Suc_leI mult_le_mono1 del: mult_Suc)
  also have "\<dots> \<le> length samples" by simp
  finally have "i * b + b \<le> length samples" by (simp add: add.commute)
  then show ?thesis unfolding block by simp
qed

lemma concat_blocks_upto:
  assumes "m * b \<le> length samples"
  shows "concat (map (\<lambda>i. take b (drop (i * b) samples)) [0 ..< m]) = take (m * b) samples"
  using assms
proof (induction m)
  case 0
  then show ?case by simp
next
  case (Suc m)
  then have IH: "concat (map (\<lambda>i. take b (drop (i * b) samples)) [0 ..< m]) = take (m * b) samples"
    by simp
  have "take (Suc m * b) samples = take (m * b + b) samples" by (simp add: add.commute)
  also have "\<dots> = take (m * b) samples @ take b (drop (m * b) samples)"
    by (rule take_add)
  finally show ?case using IH by simp
qed

lemma concat_full_blocks:
  "concat (full_blocks samples b) = take ((length samples div b) * b) samples"
  unfolding full_blocks_def by (rule concat_blocks_upto) simp

lemma nth_full_blocks:
  "i < length samples div b \<Longrightarrow> full_blocks samples b ! i = take b (drop (i * b) samples)"
  by (simp add: full_blocks_def)

lemma full_blocks_tail:
  assumes "0 < view_block_size view"
  shows "concat (full_blocks (view_samples view) (view_block_size view)) @ tailPartial view
           = view_samples view"
proof -
  let ?n = "length (view_samples view)" and ?b = "view_block_size view"
  have split: "(?n div ?b) * ?b + ?n mod ?b = ?n"
    by simp
  then have "?n - ?n mod ?b = (?n div ?b) * ?b"
    by arith
  then have "tailPartial view = drop ((?n div ?b) * ?b) (view_samples view)"
    using split by (auto simp add: tailPartial_def Let_def)
  then show ?thesis by (simp add: concat_full_blocks)
qed

lemma process_view_fold:
  assumes "0 < view_block_size view"
  shows "process_view engine view state
           = Some (fold (process_block engine)
                     (full_blocks (view_samples view) (view_block_size view)) state)"
  unfolding process_view_def by (rule for_each_block_fold [OF assms])

text \<open>
  Claim C10. For a view over \<open>n\<close> samples with block size \<open>b > 0\<close>, iterating
  \<open>blocks()\<close> ends and yields exactly \<open>n div b\<close> blocks; block \<open>i\<close> is the \<open>b\<close> samples
  from offset \<open>i * b\<close>, so together they are the first \<open>n - n mod b\<close> samples in order and
  the trailing \<open>n mod b\<close> samples (those of \<open>tailPartial\<close>) are in no block. The loop of the
  callback runs its body, and with it the analysis engine, on exactly these blocks in
  this order. A view over no samples yields no block and leaves the detector as it was.
\<close>

theorem blocks_are_the_full_blocks:
  assumes "0 < view_block_size view"
  shows "blocks view
           = Some (map (\<lambda>i. take (view_block_size view)
                               (drop (i * view_block_size view) (view_samples view)))
                       [0 ..< length (view_samples view) div view_block_size view])
         \<and> (\<forall>yielded. blocks view = Some yielded \<longrightarrow>
               length yielded = length (view_samples view) div view_block_size view
               \<and> (\<forall>block \<in> set yielded. length block = view_block_size view)
               \<and> concat yielded
                   = take (length (view_samples view)
                           - length (view_samples view) mod view_block_size view)
                       (view_samples view)
               \<and> concat yielded @ tailPartial view = view_samples view
               \<and> process_view engine view state
                   = Some (fold (process_block engine) yielded state))
         \<and> (view_samples view = [] \<longrightarrow>
               blocks view = Some [] \<and> process_view engine view state = Some state)"
proof -
  let ?n = "length (view_samples view)" and ?b = "view_block_size view"
  let ?full = "full_blocks (view_samples view) ?b"
  have yielded: "blocks view = Some ?full" by (rule blocks_full [OF assms])
  have "(?n div ?b) * ?b = ?n - ?n mod ?b"
    by (metis minus_mod_eq_div_mult)
  then have prefix: "concat ?full = take (?n - ?n mod ?b) (view_samples view)"
    by (simp add: concat_full_blocks)
  have tail: "concat ?full @ tailPartial view = view_samples view"
    by (rule full_blocks_tail [OF assms])
  have none: "view_samples view = [] \<longrightarrow> ?full = []"
    by (simp add: full_blocks_def)
  have c1: "blocks view
              = Some (map (\<lambda>i. take ?b (drop (i * ?b) (view_samples view))) [0 ..< ?n div ?b])"
    unfolding yielded by (simp add: full_blocks_def)
  have c2: "\<forall>yielded. blocks view = Some yielded \<longrightarrow>
               length yielded = ?n div ?b
               \<and> (\<forall>block \<in> set yielded. length block = ?b)
               \<and> concat yielded = take (?n - ?n mod ?b) (view_samples view)
               \<and> concat yielded @ tailPartial view = view_samples view
               \<and> process_view engine view state
                   = Some (fold (process_block engine) yielded state)"
    unfolding yielded process_view_fold [OF assms]
    using prefix tail
    by (auto simp add: length_full_blocks full_blocks_length_each)
  have c3: "view_samples view = [] \<longrightarrow>
               blocks view = Some [] \<and> process_view engine view state = Some state"
    unfolding yielded process_view_fold [OF assms]
    using none by simp
  show ?thesis using c1 c2 c3 by blast
qed

theorem blocks_are_the_full_blocks_witness:
  "0 < view_block_size \<lparr>view_samples = [1, 2, 3, 4, 5 :: real], view_block_size = 2\<rparr>
   \<and> blocks \<lparr>view_samples = [1, 2, 3, 4, 5 :: real], view_block_size = 2\<rparr>
       = Some [[1, 2], [3, 4]]
   \<and> map_option aubio
        (process_view recording_engine
           \<lparr>view_samples = [1, 2, 3, 4, 5 :: real], view_block_size = 2\<rparr> recording_detector)
       = Some [[1, 2], [3, 4]]
   \<and> process_view recording_engine \<lparr>view_samples = [], view_block_size = 2\<rparr>
        recording_detector = Some recording_detector"
proof -
  let ?view = "\<lparr>view_samples = [1, 2, 3, 4, 5 :: real], view_block_size = 2\<rparr>"
  have pos: "0 < view_block_size ?view" by simp
  have pos0: "0 < view_block_size \<lparr>view_samples = ([] :: real list), view_block_size = 2\<rparr>"
    by simp
  have "[0 ..< length (view_samples ?view) div view_block_size ?view] = [0, 1]"
    by (simp add: upt_rec)
  then have yielded: "blocks ?view = Some [[1, 2], [3, 4]]"
    using blocks_are_the_full_blocks [OF pos, of recording_engine recording_detector]
    by simp
  have "process_view recording_engine ?view recording_detector
          = Some (fold (process_block recording_engine) [[1, 2], [3, 4]] recording_detector)"
    using blocks_are_the_full_blocks [OF pos, of recording_engine recording_detector]
    unfolding yielded by blast
  then have seen: "map_option aubio (process_view recording_engine ?view recording_detector)
                     = Some [[1, 2], [3, 4]]"
    by (simp add: process_block_def recording_engine_def recording_detector_def
          DetectorState_ctor_def)
  have empty: "process_view recording_engine \<lparr>view_samples = [], view_block_size = 2\<rparr>
                 recording_detector = Some recording_detector"
    using blocks_are_the_full_blocks [OF pos0, of recording_engine recording_detector]
    by simp
  show ?thesis using pos yielded seen empty by blast
qed

section \<open>Validation of a buffer\<close>

lemma size_t_of_int32_eq:
  assumes "- (2 ^ 31) \<le> i" "i < 2 ^ 31"
  shows "size_t_of_int32 i = 0 \<longleftrightarrow> i = 0" "size_t_of_int32 i = 4 \<longleftrightarrow> i = 4"
proof -
  have m: "i mod 2 ^ 64 = (if 0 \<le> i then i else i + 2 ^ 64)"
  proof (cases "0 \<le> i")
    case True
    then show ?thesis using assms by simp
  next
    case False
    then have "0 \<le> i + 2 ^ 64" "i + 2 ^ 64 < 2 ^ 64" using assms by simp_all
    then have "(i + 2 ^ 64) mod 2 ^ 64 = i + 2 ^ 64" by (rule mod_pos_pos_trivial)
    moreover have "(i + 2 ^ 64) mod 2 ^ 64 = i mod 2 ^ 64" by (rule mod_add_self2)
    ultimately show ?thesis using False by simp
  qed
  show "size_t_of_int32 i = 0 \<longleftrightarrow> i = 0"
    unfolding size_t_of_int32_def m using assms by auto
  show "size_t_of_int32 i = 4 \<longleftrightarrow> i = 4"
    unfolding size_t_of_int32_def m using assms by auto
qed

lemma spaStrideBytes_expected:
  assumes "- (2 ^ 31) \<le> chunk_stride c" "chunk_stride c < 2 ^ 31"
  shows "(spaStrideBytes (Some \<lparr>datas0 = \<lparr>data = d, chunk = Some c\<rparr>\<rparr>) sizeof_float
            = sizeof_float)
         = (chunk_stride c = 0 \<or> chunk_stride c = 4)"
proof (cases "chunk_stride c = 0")
  case True
  then have "size_t_of_int32 (chunk_stride c) = 0" by (simp add: size_t_of_int32_def)
  then show ?thesis using True by (simp add: spaStrideBytes_def)
next
  case False
  then have "size_t_of_int32 (chunk_stride c) \<noteq> 0"
    using size_t_of_int32_eq(1) [OF assms] by simp
  then have "spaStrideBytes (Some \<lparr>datas0 = \<lparr>data = d, chunk = Some c\<rparr>\<rparr>) sizeof_float
               = size_t_of_int32 (chunk_stride c)"
    by (simp add: spaStrideBytes_def)
  then show ?thesis
    using False size_t_of_int32_eq(2) [OF assms] by (simp add: sizeof_float_def)
qed

lemma makeBufferViewFromSpaMonoF32_cases:
  assumes "- (2 ^ 31) \<le> chunk_stride c" "chunk_stride c < 2 ^ 31"
  shows "makeBufferViewFromSpaMonoF32 None block_size = Inl NullData"
    and "makeBufferViewFromSpaMonoF32 (Some \<lparr>datas0 = \<lparr>data = None, chunk = ch\<rparr>\<rparr>) block_size
           = Inl NullData"
    and "makeBufferViewFromSpaMonoF32 (Some \<lparr>datas0 = \<lparr>data = Some memory, chunk = None\<rparr>\<rparr>)
           block_size
           = (if block_size = 0 then Inl ZeroBlockSize else Inl UnsupportedStride)"
    and "makeBufferViewFromSpaMonoF32 (Some \<lparr>datas0 = \<lparr>data = Some memory, chunk = Some c\<rparr>\<rparr>)
           block_size
           = (if block_size = 0 then Inl ZeroBlockSize
              else if chunk_stride c \<noteq> 0 \<and> chunk_stride c \<noteq> 4 then Inl UnsupportedStride
              else if chunk_size c mod 4 \<noteq> 0 then Inl MisalignedBytes
              else Inr \<lparr>view_samples = take (chunk_size c div 4) memory,
                        view_block_size = block_size\<rparr>)"
proof -
  show "makeBufferViewFromSpaMonoF32 None block_size = Inl NullData"
    by (simp add: makeBufferViewFromSpaMonoF32_def spaDataPtr_def)
  show "makeBufferViewFromSpaMonoF32 (Some \<lparr>datas0 = \<lparr>data = None, chunk = ch\<rparr>\<rparr>) block_size
           = Inl NullData"
    by (simp add: makeBufferViewFromSpaMonoF32_def spaDataPtr_def)
  show "makeBufferViewFromSpaMonoF32 (Some \<lparr>datas0 = \<lparr>data = Some memory, chunk = None\<rparr>\<rparr>)
           block_size
           = (if block_size = 0 then Inl ZeroBlockSize else Inl UnsupportedStride)"
    by (simp add: makeBufferViewFromSpaMonoF32_def spaDataPtr_def spaStrideBytes_def
          sizeof_float_def)
  show "makeBufferViewFromSpaMonoF32 (Some \<lparr>datas0 = \<lparr>data = Some memory, chunk = Some c\<rparr>\<rparr>)
           block_size
           = (if block_size = 0 then Inl ZeroBlockSize
              else if chunk_stride c \<noteq> 0 \<and> chunk_stride c \<noteq> 4 then Inl UnsupportedStride
              else if chunk_size c mod 4 \<noteq> 0 then Inl MisalignedBytes
              else Inr \<lparr>view_samples = take (chunk_size c div 4) memory,
                        view_block_size = block_size\<rparr>)"
    using spaStrideBytes_expected [OF assms, of "Some memory"]
    unfolding makeBufferViewFromSpaMonoF32_def Let_def
    by (simp add: spaDataPtr_def spaSizeBytes_def makeBufferViewFromBytes_def)
      (simp add: sizeof_float_def)
qed

lemma process_rejected:
  assumes "\<not> quit state"
    and "data (datas0 spa_buf) \<noteq> None" "chunk (datas0 spa_buf) \<noteq> None"
    and "makeBufferViewFromSpaMonoF32 (Some spa_buf) (buffer_size state) = Inl error"
  shows "process engine (Some \<lparr>buffer = Some spa_buf\<rparr>) state
           = Some (requeued (state\<lparr>stderr_lines := stderr_lines state @ [rejected_line error]\<rparr>))"
  using assms by (simp add: process_def requeued_def Let_def)

lemma process_skipped:
  assumes "\<not> quit state" "data (datas0 spa_buf) = None \<or> chunk (datas0 spa_buf) = None"
  shows "process engine (Some \<lparr>buffer = Some spa_buf\<rparr>) state = Some (requeued state)"
  using assms by (auto simp add: process_def requeued_def Let_def)

text \<open>
  Claim C7, as the code has it. \<open>makeBufferViewFromSpaMonoF32\<close> refuses, in this
  order: a null buffer or data pointer (\<open>NullData\<close>), a block size of zero
  (\<open>ZeroBlockSize\<close>), a missing chunk or a stride that is neither 0 nor 4 bytes
  (\<open>UnsupportedStride\<close>; a stride of 0 stands for the default of 4), and a byte length
  that is not a multiple of 4 (\<open>MisalignedBytes\<close>). Every other buffer is accepted, a
  buffer of length zero included, and gives the view over its first \<open>size div 4\<close> samples.
  In the callback a buffer whose data pointer or chunk is null is skipped before
  validation, with nothing written; when validation fails, the callback returns, the
  detector is as before except for one line \<open>SPA buffer rejected: <label>\<close> on stderr,
  and the buffer is given back to the stream.
\<close>

theorem buffer_validation:
  fixes memory :: "('f::zero) list" and state :: "('f, 'e) DetectorState"
  assumes "- (2 ^ 31) \<le> chunk_stride c" "chunk_stride c < 2 ^ 31"
  shows "makeBufferViewFromSpaMonoF32 (None :: 'f spa_buffer option) block_size = Inl NullData
         \<and> makeBufferViewFromSpaMonoF32
               (Some \<lparr>datas0 = \<lparr>data = (None :: 'f list option), chunk = ch\<rparr>\<rparr>)
               block_size = Inl NullData
         \<and> makeBufferViewFromSpaMonoF32
               (Some \<lparr>datas0 = \<lparr>data = Some memory, chunk = None\<rparr>\<rparr>) block_size
             = (if block_size = 0 then Inl ZeroBlockSize else Inl UnsupportedStride)
         \<and> makeBufferViewFromSpaMonoF32
               (Some \<lparr>datas0 = \<lparr>data = Some memory, chunk = Some c\<rparr>\<rparr>) block_size
             = (if block_size = 0 then Inl ZeroBlockSize
                else if chunk_stride c \<noteq> 0 \<and> chunk_stride c \<noteq> 4 then Inl UnsupportedStride
                else if chunk_size c mod 4 \<noteq> 0 then Inl MisalignedBytes
                else Inr \<lparr>view_samples = take (chunk_size c div 4) memory,
                          view_block_size = block_size\<rparr>)
         \<and> (\<not> quit state \<and> data (datas0 spa_buf) \<noteq> None \<and> chunk (datas0 spa_buf) \<noteq> None
              \<and> makeBufferViewFromSpaMonoF32 (Some spa_buf) (buffer_size state) = Inl error
              \<longrightarrow> process engine (Some \<lparr>buffer = Some spa_buf\<rparr>) state
                    = Some (requeued (state\<lparr>stderr_lines :=
                              stderr_lines state
                              @ [\<lparr>fmt = ''SPA buffer rejected: {}'',
                                  fmt_args = [ArgStr (toString error)]\<rparr>]\<rparr>)))
         \<and> (\<not> quit state \<and> (data (datas0 spa_buf) = None \<or> chunk (datas0 spa_buf) = None)
              \<longrightarrow> process engine (Some \<lparr>buffer = Some spa_buf\<rparr>) state
                    = Some (requeued state))"
  using makeBufferViewFromSpaMonoF32_cases [OF assms]
    process_rejected [where state = state and spa_buf = spa_buf and error = error
      and engine = engine]
    process_skipped [where state = state and spa_buf = spa_buf and engine = engine]
  by (simp only: rejected_line_def) blast

theorem buffer_validation_witness:
  "- (2 ^ 31) \<le> chunk_stride \<lparr>chunk_size = 6, chunk_stride = 4\<rparr>
   \<and> chunk_stride \<lparr>chunk_size = 6, chunk_stride = 4\<rparr> < 2 ^ 31
   \<and> makeBufferViewFromSpaMonoF32 (Some (sample_spa_buffer (Some [1, 2]) 6 4)) 2
       = Inl MisalignedBytes
   \<and> process recording_engine (Some \<lparr>buffer = Some (sample_spa_buffer (Some [1, 2]) 6 4)\<rparr>)
        recording_detector
       = Some (recording_detector
                 \<lparr>stderr_lines :=
                    [\<lparr>fmt = ''SPA buffer rejected: {}'',
                      fmt_args = [ArgStr ''byte size is not a multiple of sample size'']\<rparr>]\<rparr>)
   \<and> process recording_engine (Some \<lparr>buffer = Some \<lparr>datas0 = \<lparr>data = None, chunk = None\<rparr>\<rparr>\<rparr>)
        recording_detector
       = Some recording_detector"
proof -
  let ?c = "\<lparr>chunk_size = 6, chunk_stride = 4\<rparr>"
  let ?buf = "sample_spa_buffer (Some [1, 2]) 6 4"
  let ?null = "\<lparr>datas0 = \<lparr>data = (None :: real list option), chunk = None\<rparr>\<rparr>"
  have lo: "- (2 ^ 31) \<le> chunk_stride ?c" and hi: "chunk_stride ?c < 2 ^ 31" by simp_all
  have running: "\<not> quit recording_detector" and nostream: "\<not> stream recording_detector"
    and bs: "buffer_size recording_detector = 2"
    and err0: "stderr_lines recording_detector = []"
    by (simp_all add: recording_detector_def DetectorState_ctor_def)
  have rej: "makeBufferViewFromSpaMonoF32 (Some ?buf) 2 = Inl MisalignedBytes"
    using buffer_validation [OF lo hi, where block_size = 2 and memory = "[1, 2 :: real]"
        and ch = None and state = recording_detector and spa_buf = ?buf and error = MisalignedBytes
        and engine = recording_engine]
    by (simp add: sample_spa_buffer_def)
  have fields: "data (datas0 ?buf) \<noteq> None" "chunk (datas0 ?buf) \<noteq> None"
    by (simp_all add: sample_spa_buffer_def)
  have "process recording_engine (Some \<lparr>buffer = Some ?buf\<rparr>) recording_detector
          = Some (requeued (recording_detector\<lparr>stderr_lines :=
                    stderr_lines recording_detector
                    @ [\<lparr>fmt = ''SPA buffer rejected: {}'',
                        fmt_args = [ArgStr (toString MisalignedBytes)]\<rparr>]\<rparr>))"
    using buffer_validation [OF lo hi, where block_size = 2 and memory = "[1, 2 :: real]"
        and ch = None and state = recording_detector and spa_buf = ?buf and error = MisalignedBytes
        and engine = recording_engine] running fields rej bs
    by simp
  then have logged: "process recording_engine (Some \<lparr>buffer = Some ?buf\<rparr>) recording_detector
          = Some (recording_detector
                 \<lparr>stderr_lines :=
                    [\<lparr>fmt = ''SPA buffer rejected: {}'',
                      fmt_args = [ArgStr ''byte size is not a multiple of sample size'']\<rparr>]\<rparr>)"
    using nostream err0 by (simp add: requeued_def)
  have "process recording_engine (Some \<lparr>buffer = Some ?null\<rparr>) recording_detector
          = Some (requeued recording_detector)"
    using buffer_validation [OF lo hi, where state = recording_detector and spa_buf = ?null
        and engine = recording_engine and ch = None] running
    by simp
  then have silent: "process recording_engine (Some \<lparr>buffer = Some ?null\<rparr>) recording_detector
          = Some recording_detector"
    using nostream by (simp add: requeued_def)
  show ?thesis using lo hi rej logged silent by blast
qed

text \<open>
  Claim C7 as stated fails on a buffer of length zero, which validation accepts (it gives
  a view with no samples, and nothing is written), and in the callback on a null data
  pointer, where the block is skipped with nothing written to stderr.
\<close>

theorem zero_length_buffer_counterexample:
  "makeBufferViewFromSpaMonoF32 (Some (sample_spa_buffer (Some []) 0 4)) 512
     = Inr \<lparr>view_samples = [], view_block_size = 512\<rparr>
   \<and> map_option stderr_lines
        (process recording_engine (Some \<lparr>buffer = Some (sample_spa_buffer (Some []) 0 4)\<rparr>)
           recording_detector) = Some []
   \<and> map_option stderr_lines
        (process recording_engine (Some \<lparr>buffer = Some (sample_spa_buffer None 8 4)\<rparr>)
           recording_detector) = Some []"
proof -
  have v: "makeBufferViewFromSpaMonoF32 (Some (sample_spa_buffer (Some []) 0 4)) n
             = (if n = 0 then Inl ZeroBlockSize
                else Inr \<lparr>view_samples = ([] :: real list), view_block_size = n\<rparr>)" for n
    by (simp add: makeBufferViewFromSpaMonoF32_def sample_spa_buffer_def spaDataPtr_def
          spaSizeBytes_def spaStrideBytes_def size_t_of_int32_def sizeof_float_def
          makeBufferViewFromBytes_def)
  have pv: "process_view recording_engine \<lparr>view_samples = [], view_block_size = 2\<rparr>
              recording_detector = Some recording_detector"
    by (simp add: process_view_fold full_blocks_def)
  have running: "\<not> quit recording_detector" and nostream: "\<not> stream recording_detector"
    and bs: "buffer_size recording_detector = 2"
    by (simp_all add: recording_detector_def DetectorState_ctor_def)
  have zfields: "data (datas0 (sample_spa_buffer (Some []) 0 4)) \<noteq> None"
    "chunk (datas0 (sample_spa_buffer (Some []) 0 4)) \<noteq> None"
    by (simp_all add: sample_spa_buffer_def)
  have "process recording_engine (Some \<lparr>buffer = Some (sample_spa_buffer (Some []) 0 4)\<rparr>)
           recording_detector = Some recording_detector"
    unfolding process_def Let_def
    using running nostream zfields by (simp add: bs v pv)
  moreover have "process recording_engine (Some \<lparr>buffer = Some (sample_spa_buffer None 8 4)\<rparr>)
           recording_detector = Some recording_detector"
    unfolding process_def Let_def
    using running nostream by (simp add: sample_spa_buffer_def)
  moreover have "stderr_lines recording_detector = []"
    by (simp add: recording_detector_def DetectorState_ctor_def)
  ultimately show ?thesis using v [of 512] by simp
qed

section \<open>The BPM rolling buffer: the window of the average\<close>

lemma kBPMCapacity_pos: "0 < kBPMCapacity"
  by (simp add: kBPMCapacity_def)

lemma window_first:
  fixes h n c :: nat
  assumes "h < c" "n \<le> c"
  shows "(h + c - n) mod c = (if n \<le> h then h - n else h + c - n)"
proof -
  have "h + c - n < 2 * c" using assms by arith
  then have "(h + c - n) mod c = (if h + c - n < c then h + c - n else h + c - n - c)"
    by (rule mod_below_twice)
  then show ?thesis using assms by (auto split: if_splits)
qed

lemma window_slot:
  fixes f i c :: nat
  assumes "f < c" "i \<le> c"
  shows "(f + i) mod c = (if f + i < c then f + i else f + i - c)"
proof -
  have "f + i < 2 * c" using assms by arith
  then show ?thesis by (rule mod_below_twice)
qed

lemma window_end:
  fixes h n c :: nat
  assumes "h < c" "n \<le> c"
  shows "((h + c - n) mod c + n) mod c = h"
proof -
  have f: "(h + c - n) mod c < c" using assms by simp
  show ?thesis
    unfolding window_slot [OF f assms(2)]
    unfolding window_first [OF assms]
    using assms by (auto split: if_splits)
qed

lemma window_inner:
  fixes h n c i :: nat
  assumes "h < c" "n < c" "i < n"
  shows "h \<noteq> ((h + c - n) mod c + i) mod c"
proof -
  have f: "(h + c - n) mod c < c" using assms by simp
  have i: "i \<le> c" and n: "n \<le> c" using assms by simp_all
  show ?thesis
    unfolding window_slot [OF f i]
    unfolding window_first [OF assms(1) n]
    using assms by (auto split: if_splits)
qed

lemma window_first_record:
  fixes h n c :: nat
  assumes "h < c" "n < c"
  shows "((h + 1) mod c + c - (n + 1)) mod c = (h + c - n) mod c"
proof -
  have h': "(h + 1) mod c < c" and n': "n + 1 \<le> c" and n: "n \<le> c" using assms by simp_all
  show ?thesis
    unfolding window_first [OF h' n'] window_first [OF assms(1) n]
    unfolding ring_next [OF assms(1)]
    using assms by (auto split: if_splits)
qed

lemma bpm_ok_record_bpm: "bpm_ok b \<Longrightarrow> bpm_ok (record_bpm v b)"
  by (simp add: bpm_ok_def record_bpm_def Let_def kBPMCapacity_pos)

lemma record_bpm_fields:
  "bpm_values (record_bpm v b) = (bpm_values b)[bpm_head b := v]"
  "bpm_head (record_bpm v b) = (bpm_head b + 1) mod kBPMCapacity"
  "bpm_count (record_bpm v b) = min (bpm_count b + 1) kBPMCapacity"
  by (simp_all add: record_bpm_def Let_def)

lemma length_bpm_value_view: "length (bpm_value_view b) = bpm_count b"
  by (simp add: bpm_value_view_def)

lemma nth_bpm_value_view:
  "i < bpm_count b \<Longrightarrow>
     bpm_value_view b ! i
       = bpm_values b ! (((bpm_head b + kBPMCapacity - bpm_count b) mod kBPMCapacity + i)
                          mod kBPMCapacity)"
  by (simp add: bpm_value_view_def Let_def)

lemma bpm_value_view_record:
  assumes "bpm_ok b"
  shows "bpm_value_view (record_bpm v b)
           = (if bpm_count b = kBPMCapacity then tl (bpm_value_view b) else bpm_value_view b)
             @ [v]"
proof -
  let ?c = kBPMCapacity
  have h: "bpm_head b < ?c" and n: "bpm_count b \<le> ?c" and len: "length (bpm_values b) = ?c"
    using assms by (simp_all add: bpm_ok_def)
  show ?thesis
  proof (cases "bpm_count b = ?c")
    case False
    then have lt: "bpm_count b < ?c" using n by simp
    have cnt: "bpm_count (record_bpm v b) = bpm_count b + 1"
      using lt by (simp add: record_bpm_fields)
    have first: "(bpm_head (record_bpm v b) + ?c - bpm_count (record_bpm v b)) mod ?c
                   = (bpm_head b + ?c - bpm_count b) mod ?c"
      unfolding cnt record_bpm_fields(2) by (rule window_first_record [OF h lt])
    have "bpm_value_view (record_bpm v b) = bpm_value_view b @ [v]"
    proof (rule nth_equalityI)
      show "length (bpm_value_view (record_bpm v b)) = length (bpm_value_view b @ [v])"
        by (simp add: length_bpm_value_view cnt)
    next
      fix i assume "i < length (bpm_value_view (record_bpm v b))"
      then have i: "i < bpm_count b + 1" by (simp add: length_bpm_value_view cnt)
      then have i': "i < bpm_count (record_bpm v b)" by (simp add: cnt)
      have lhs: "bpm_value_view (record_bpm v b) ! i
                   = (bpm_values b)[bpm_head b := v]
                       ! (((bpm_head b + ?c - bpm_count b) mod ?c + i) mod ?c)"
        unfolding nth_bpm_value_view [OF i'] first by (simp add: record_bpm_fields)
      show "bpm_value_view (record_bpm v b) ! i = (bpm_value_view b @ [v]) ! i"
      proof (cases "i < bpm_count b")
        case True
        have "bpm_head b \<noteq> ((bpm_head b + ?c - bpm_count b) mod ?c + i) mod ?c"
          by (rule window_inner [OF h lt True])
        then show ?thesis
          using True lhs
          by (simp add: nth_append length_bpm_value_view nth_bpm_value_view)
      next
        case False
        then have eq: "i = bpm_count b" using i by simp
        have "((bpm_head b + ?c - bpm_count b) mod ?c + bpm_count b) mod ?c = bpm_head b"
          by (rule window_end [OF h n])
        then show ?thesis
          using lhs h len by (simp add: eq nth_append length_bpm_value_view)
      qed
    qed
    then show ?thesis using False by simp
  next
    case True
    have cnt: "bpm_count (record_bpm v b) = ?c"
      using True by (simp add: record_bpm_fields)
    have first_old: "(bpm_head b + ?c - bpm_count b) mod ?c = bpm_head b"
      using h by (simp add: True)
    have first_new: "(bpm_head (record_bpm v b) + ?c - bpm_count (record_bpm v b)) mod ?c
                       = (bpm_head b + 1) mod ?c"
      unfolding cnt record_bpm_fields(2) by simp
    have "bpm_value_view (record_bpm v b) = tl (bpm_value_view b) @ [v]"
    proof (rule nth_equalityI)
      show "length (bpm_value_view (record_bpm v b)) = length (tl (bpm_value_view b) @ [v])"
        using kBPMCapacity_pos by (simp add: length_bpm_value_view cnt True)
    next
      fix i assume "i < length (bpm_value_view (record_bpm v b))"
      then have i: "i < ?c" by (simp add: length_bpm_value_view cnt)
      then have i': "i < bpm_count (record_bpm v b)" by (simp add: cnt)
      have lhs: "bpm_value_view (record_bpm v b) ! i
                   = (bpm_values b)[bpm_head b := v] ! ((bpm_head b + (i + 1)) mod ?c)"
        unfolding nth_bpm_value_view [OF i'] first_new
        by (simp add: record_bpm_fields mod_simps)
      show "bpm_value_view (record_bpm v b) ! i = (tl (bpm_value_view b) @ [v]) ! i"
      proof (cases "i + 1 < ?c")
        case inner: True
        then have in_old: "i + 1 < bpm_count b" by (simp add: True)
        have "0 < i + 1" by simp
        have "bpm_head b \<noteq> ((bpm_head b + ?c - bpm_count b) mod ?c + (i + 1)) mod ?c"
        proof -
          have "(bpm_head b + (i + 1)) mod ?c \<noteq> bpm_head b"
            using h inner by (auto simp add: mod_below_twice split: if_splits)
          then show ?thesis unfolding first_old by simp
        qed
        then have "bpm_head b \<noteq> (bpm_head b + (i + 1)) mod ?c"
          unfolding first_old .
        then have "bpm_value_view (record_bpm v b) ! i
                     = bpm_values b ! ((bpm_head b + (i + 1)) mod ?c)"
          using lhs by simp
        moreover have "(tl (bpm_value_view b) @ [v]) ! i = bpm_value_view b ! (i + 1)"
        proof -
          have "i < length (tl (bpm_value_view b))"
            using inner by (simp add: length_bpm_value_view True)
          then show ?thesis by (simp add: nth_append nth_tl)
        qed
        moreover have "bpm_value_view b ! (i + 1)
                         = bpm_values b ! ((bpm_head b + (i + 1)) mod ?c)"
          unfolding nth_bpm_value_view [OF in_old] first_old ..
        ultimately show ?thesis by simp
      next
        case False
        then have eq: "i + 1 = ?c" using i by simp
        then have "(bpm_head b + (i + 1)) mod ?c = bpm_head b" using h by simp
        then have "bpm_value_view (record_bpm v b) ! i = v"
          using lhs h len by simp
        moreover have "(tl (bpm_value_view b) @ [v]) ! i = v"
        proof -
          have "length (tl (bpm_value_view b)) = i"
            using eq by (simp add: length_bpm_value_view True)
          then show ?thesis by (metis nth_append_length)
        qed
        ultimately show ?thesis by simp
      qed
    qed
    then show ?thesis using True by simp
  qed
qed

lemma bpm_value_view_fold:
  assumes "bpm_ok b"
  shows "bpm_ok (fold record_bpm vs b) \<and>
         bpm_value_view (fold record_bpm vs b)
           = drop (length (bpm_value_view b @ vs) - kBPMCapacity) (bpm_value_view b @ vs)"
  using assms
proof (induction vs arbitrary: b)
  case Nil
  then show ?case by (simp add: length_bpm_value_view bpm_ok_def)
next
  case (Cons v vs)
  have ok': "bpm_ok (record_bpm v b)" using Cons.prems by (rule bpm_ok_record_bpm)
  note IH = Cons.IH [OF ok']
  show ?case
  proof (cases "bpm_count b = kBPMCapacity")
    case False
    then have "bpm_value_view (record_bpm v b) = bpm_value_view b @ [v]"
      using bpm_value_view_record [OF Cons.prems] by simp
    then show ?thesis using IH by simp
  next
    case True
    then have c': "bpm_value_view (record_bpm v b) = tl (bpm_value_view b) @ [v]"
      using bpm_value_view_record [OF Cons.prems] by simp
    have len: "length (bpm_value_view b) = kBPMCapacity"
      using True by (simp add: length_bpm_value_view)
    then have "bpm_value_view b \<noteq> []" using kBPMCapacity_pos by auto
    then obtain x xs where xs: "bpm_value_view b = x # xs"
      by (cases "bpm_value_view b") auto
    have lxs: "Suc (length xs) = kBPMCapacity" using len xs by simp
    have i1: "length (bpm_value_view b @ v # vs) - kBPMCapacity = Suc (length vs)"
      using lxs xs by simp
    have i2: "length ((xs @ [v]) @ vs) - kBPMCapacity = length vs"
      using lxs by simp
    have "drop (length (bpm_value_view b @ v # vs) - kBPMCapacity) (bpm_value_view b @ v # vs)
            = drop (Suc (length vs)) (x # xs @ v # vs)"
      unfolding i1 by (simp only: xs append_Cons)
    also have "\<dots> = drop (length vs) ((xs @ [v]) @ vs)" by simp
    also have "\<dots> = drop (length ((xs @ [v]) @ vs) - kBPMCapacity) ((xs @ [v]) @ vs)"
      by (simp only: i2)
    finally have "drop (length (bpm_value_view b @ v # vs) - kBPMCapacity)
                    (bpm_value_view b @ v # vs)
                  = drop (length (bpm_value_view (record_bpm v b) @ vs) - kBPMCapacity)
                      (bpm_value_view (record_bpm v b) @ vs)"
      by (simp only: c' xs list.sel)
    then show ?thesis using IH by simp
  qed
qed

lemma bpm_ok_value_init: "bpm_ok value_init_BPMBuffer"
  by (simp add: bpm_ok_def value_init_BPMBuffer_def kBPMCapacity_pos)

lemma bpm_value_view_recorded:
  "bpm_value_view (fold record_bpm vs value_init_BPMBuffer) = drop (length vs - kBPMCapacity) vs"
proof -
  have "bpm_value_view (value_init_BPMBuffer :: 'a BPMBuffer) = []"
    by (simp add: bpm_value_view_def value_init_BPMBuffer_def)
  then show ?thesis
    using bpm_value_view_fold [OF bpm_ok_value_init, of vs] by simp
qed

lemma bpm_count_recorded:
  "bpm_count (fold record_bpm vs value_init_BPMBuffer) = min (length vs) kBPMCapacity"
proof -
  have "bpm_count (fold record_bpm vs value_init_BPMBuffer)
          = length (bpm_value_view (fold record_bpm vs value_init_BPMBuffer))"
    by (simp add: length_bpm_value_view)
  then show ?thesis unfolding bpm_value_view_recorded by simp
qed

lemma averageBpm_recorded:
  "averageBpm float_of_size (state\<lparr>state_bpm := fold record_bpm vs value_init_BPMBuffer\<rparr>)
     = (if vs = [] then 0
        else foldl (+) 0 (drop (length vs - kBPMCapacity) vs)
             div float_of_size (min (length vs) kBPMCapacity))"
proof -
  have "(min (length vs) kBPMCapacity = 0) = (vs = [])"
    using kBPMCapacity_pos by (cases vs) simp_all
  then show ?thesis
    by (simp add: averageBpm_def bpm_count_recorded bpm_value_view_recorded)
qed

lemma foldl_plus_sum_list:
  fixes a :: "'a::monoid_add"
  shows "foldl (+) a xs = a + sum_list xs"
  by (induction xs arbitrary: a) (simp_all add: add.assoc)

text \<open>
  Claim C4. Whatever the arithmetic of the sample type, \<open>averageBpm\<close> is zero when
  nothing has been recorded, and otherwise the sum, taken from zero in recording order,
  of the last \<open>min count 10\<close> values recorded, divided by their number. Over the reals
  this is their arithmetic mean; recording 60, 120, 90 gives 90; and of eleven values
  recorded the first takes no part in the mean.
\<close>

theorem averageBpm_window:
  fixes float_of_size :: "nat \<Rightarrow> 'f::{zero,plus,divide}"
    and state :: "('f, 'e) DetectorState"
    and rstate :: "(real, 'e) DetectorState"
  shows "averageBpm float_of_size
           (state\<lparr>state_bpm := fold record_bpm vs value_init_BPMBuffer\<rparr>)
         = (if vs = [] then 0
            else foldl (+) 0 (drop (length vs - 10) vs) div float_of_size (min (length vs) 10))
       \<and> averageBpm real (rstate\<lparr>state_bpm := fold record_bpm rs value_init_BPMBuffer\<rparr>)
         = (if rs = [] then 0
            else sum_list (drop (length rs - 10) rs) / real (min (length rs) 10))
       \<and> averageBpm real (rstate\<lparr>state_bpm := fold record_bpm [60, 120, 90]
                                                 value_init_BPMBuffer\<rparr>) = 90
       \<and> averageBpm real
            (rstate\<lparr>state_bpm := fold record_bpm [v0, v1, v2, v3, v4, v5, v6, v7, v8, v9, v10]
                                     value_init_BPMBuffer\<rparr>)
         = (v1 + v2 + v3 + v4 + v5 + v6 + v7 + v8 + v9 + v10) / 10"
proof -
  have g: "averageBpm float_of_size
           (state\<lparr>state_bpm := fold record_bpm vs value_init_BPMBuffer\<rparr>)
         = (if vs = [] then 0
            else foldl (+) 0 (drop (length vs - 10) vs) div float_of_size (min (length vs) 10))"
    unfolding averageBpm_recorded by (simp add: kBPMCapacity_def)
  have r: "averageBpm real (rstate\<lparr>state_bpm := fold record_bpm xs value_init_BPMBuffer\<rparr>)
         = (if xs = [] then 0
            else sum_list (drop (length xs - 10) xs) / real (min (length xs) 10))" for xs
    unfolding averageBpm_recorded by (simp add: kBPMCapacity_def foldl_plus_sum_list)
  have three: "averageBpm real (rstate\<lparr>state_bpm := fold record_bpm [60, 120, 90]
                                                 value_init_BPMBuffer\<rparr>) = 90"
    unfolding r by simp
  have eleven: "averageBpm real
            (rstate\<lparr>state_bpm := fold record_bpm [v0, v1, v2, v3, v4, v5, v6, v7, v8, v9, v10]
                                     value_init_BPMBuffer\<rparr>)
         = (v1 + v2 + v3 + v4 + v5 + v6 + v7 + v8 + v9 + v10) / 10"
    unfolding r by (simp add: add.assoc)
  show ?thesis using g r [of rs] three eleven by blast
qed

section \<open>What each operation leaves alone\<close>

lemma lifecycle_spsc_push: "lifecycle_of (spsc_push e s) = lifecycle_of s"
  by (simp add: lifecycle_of_def disconnects_def spsc_push_def Let_def)

lemma lifecycle_process_block: "lifecycle_of (process_block engine block s) = lifecycle_of s"
proof -
  have upd: "lifecycle_of (s\<lparr>aubio := a, total_beats := tb, last_bpm := lb, state_bpm := sb,
               total_onsets := t\<rparr>) = lifecycle_of s" for a tb lb sb t
    by (simp add: lifecycle_of_def disconnects_def)
  have upd2: "lifecycle_of (s\<lparr>aubio := a\<rparr>) = lifecycle_of s"
    "lifecycle_of (s\<lparr>aubio := a, total_beats := tb, last_bpm := lb, state_bpm := sb\<rparr>)
       = lifecycle_of s"
    "lifecycle_of (s\<lparr>aubio := a, total_onsets := t\<rparr>) = lifecycle_of s" for a tb lb sb t
    by (simp_all add: lifecycle_of_def disconnects_def)
  show ?thesis
    unfolding process_block_def Let_def
    by (simp add: lifecycle_spsc_push upd upd2 split: prod.split)
qed

lemma lifecycle_fold_process_block:
  "lifecycle_of (fold (process_block engine) blks s) = lifecycle_of s"
  by (induction blks arbitrary: s) (simp_all add: lifecycle_process_block)

lemma blocks_of_valid_view:
  assumes "makeBufferViewFromSpaMonoF32 b n = Inr view"
  shows "0 < view_block_size view"
  using assms
  by (auto simp add: makeBufferViewFromSpaMonoF32_def makeBufferViewFromBytes_def Let_def
        split: if_splits option.splits)

lemma process_total:
  fixes s :: "('f::zero, 'e) DetectorState"
  shows "\<exists>s'. process engine dequeued s = Some s'"
proof -
  have pv: "\<exists>s'. process_view engine view s = Some s'"
    if "makeBufferViewFromSpaMonoF32 b n = Inr view"
    for b :: "'f spa_buffer option" and n and view :: "'f BufferView"
    using process_view_fold [OF blocks_of_valid_view [OF that], of engine s] by simp
  show ?thesis
    unfolding process_def Let_def
    by (auto split: option.split sum.split dest: pv)
qed

lemma queue_ok_process_block: "queue_ok s \<Longrightarrow> queue_ok (process_block engine block s)"
proof -
  assume ok: "queue_ok s"
  have upd: "queue_ok (s\<lparr>aubio := a\<rparr>)"
    "queue_ok (s\<lparr>aubio := a, total_beats := tb, last_bpm := lb, state_bpm := sb\<rparr>)"
    "queue_ok (s\<lparr>aubio := a, total_onsets := t\<rparr>)"
    "queue_ok (s\<lparr>aubio := a, total_beats := tb, last_bpm := lb, state_bpm := sb,
               total_onsets := t\<rparr>)" for a tb lb sb t
    using ok by (simp_all add: queue_ok_def)
  show ?thesis
    unfolding process_block_def Let_def
    by (simp add: queue_ok_spsc_push upd split: prod.split)
qed

lemma queue_ok_fold_process_block:
  "queue_ok s \<Longrightarrow> queue_ok (fold (process_block engine) blks s)"
  by (induction blks arbitrary: s) (simp_all add: queue_ok_process_block)

lemma process_effect:
  fixes s :: "('f::zero, 'e) DetectorState"
  assumes "process engine dequeued s = Some s'"
  shows "lifecycle_of s' = lifecycle_of s" and "queue_ok s \<Longrightarrow> queue_ok s'"
proof -
  have pv: "lifecycle_of t = lifecycle_of s \<and> (queue_ok s \<longrightarrow> queue_ok t)"
    if "makeBufferViewFromSpaMonoF32 b n = Inr view" "process_view engine view s = Some t"
    for b :: "'f spa_buffer option" and n and view :: "'f BufferView" and t
    using that(2) process_view_fold [OF blocks_of_valid_view [OF that(1)], of engine s]
    by (auto simp add: lifecycle_fold_process_block queue_ok_fold_process_block)
  have q: "lifecycle_of (t\<lparr>pw_calls := pw_calls t @ [PwStreamQueueBuffer]\<rparr>) = lifecycle_of t"
    "queue_ok (t\<lparr>pw_calls := pw_calls t @ [PwStreamQueueBuffer]\<rparr>) = queue_ok t"
    "lifecycle_of (t\<lparr>stderr_lines := l\<rparr>) = lifecycle_of t"
    "queue_ok (t\<lparr>stderr_lines := l\<rparr>) = queue_ok t"
    for t :: "('f, 'e) DetectorState" and l
    by (simp_all add: lifecycle_of_def disconnects_def queue_ok_def)
  have "lifecycle_of s' = lifecycle_of s \<and> (queue_ok s \<longrightarrow> queue_ok s')"
    using assms unfolding process_def Let_def
    by (auto simp add: q split: option.splits sum.splits if_splits dest: pv)
      (simp_all add: lifecycle_of_def disconnects_def queue_ok_def)
  then show "lifecycle_of s' = lifecycle_of s" and "queue_ok s \<Longrightarrow> queue_ok s'"
    by simp_all
qed

lemma drained_fields:
  "lifecycle_of (drained c s) = lifecycle_of s"
  "ev_head (drained c s) = ev_head s"
  "ev_tail (drained c s) = ev_head s"
  "events (drained c s) = events s"
  by (simp_all add: drained_def lifecycle_of_def disconnects_def split: option.split)

lemma queue_ok_drained: "queue_ok s \<Longrightarrow> queue_ok (drained c s)"
  by (simp add: queue_ok_def drained_fields)

lemma drain_step:
  assumes "queue_ok s"
  shows "step engine c OpDrain s = Some (drained c s)"
  by (simp add: drain_def drain_loop_queue [OF assms])

lemma state_changed_fields:
  "quit (state_changed st err s) = quit s"
  "stopping (state_changed st err s) = stopping s"
  "stream (state_changed st err s) = stream s"
  "ev_head (state_changed st err s) = ev_head s"
  "ev_tail (state_changed st err s) = ev_tail s"
  "events (state_changed st err s) = events s"
  "disconnects (state_changed st err s)
     = disconnects s + (if st = PW_STREAM_STATE_PAUSED \<and> stopping s \<and> stream s then 1 else 0)"
  by (simp_all add: state_changed_def Let_def disconnects_def)

lemma destroy_fields:
  "quit (destroy s) = quit s"
  "stopping (destroy s) = stopping s"
  "ev_head (destroy s) = ev_head s"
  "ev_tail (destroy s) = ev_tail s"
  "events (destroy s) = events s"
  "disconnects (destroy s) = disconnects s"
  by (simp_all add: destroy_def disconnects_def)

lemma stop_fields:
  "quit (stop s) = True"
  "stopping (stop s) = (stopping s \<or> stream s)"
  "stream (stop s) = stream s"
  "ev_head (stop s) = ev_head s"
  "ev_tail (stop s) = ev_tail s"
  "events (stop s) = events s"
  "disconnects (stop s) = disconnects s"
  "pw_calls (stop s) = pw_calls s @ (if stream s then [PwStreamSetActive False] else [])"
  by (simp_all add: stop_def Let_def disconnects_def)

lemma signalHandler_fields:
  "quit (signalHandler s) = (quit s \<or> instance_set s)"
  "stopping (signalHandler s) = stopping s"
  "ev_head (signalHandler s) = ev_head s"
  "ev_tail (signalHandler s) = ev_tail s"
  "events (signalHandler s) = events s"
  "disconnects (signalHandler s) = disconnects s"
  "stream (signalHandler s) = stream s"
  by (simp_all add: signalHandler_def disconnects_def)

lemma quit_monitor_poll_fields:
  "quit (quit_monitor_poll s) = quit s"
  "stopping (quit_monitor_poll s) = stopping s"
  "ev_head (quit_monitor_poll s) = ev_head s"
  "ev_tail (quit_monitor_poll s) = ev_tail s"
  "events (quit_monitor_poll s) = events s"
  "disconnects (quit_monitor_poll s) = disconnects s"
  "stream (quit_monitor_poll s) = stream s"
  by (simp_all add: quit_monitor_poll_def Let_def disconnects_def)

lemma lifecycle_fields:
  assumes "lifecycle_of s' = lifecycle_of s"
  shows "quit s' = quit s" "stopping s' = stopping s" "stream s' = stream s"
    "disconnects s' = disconnects s"
  using assms by (simp_all add: lifecycle_of_def)

text \<open>What one step of the run does, for a detector whose ring is in order.\<close>

lemma step_effect:
  fixes s :: "('f::zero, 'e) DetectorState"
  assumes "queue_ok s"
  shows "\<exists>s'. step engine c op s = Some s' \<and> queue_ok s'
           \<and> (quit s \<longrightarrow> quit s') \<and> (stopping s \<longrightarrow> stopping s')
           \<and> (stopping s' \<and> \<not> stopping s \<longrightarrow> op = OpStop)
           \<and> disconnects s'
               = disconnects s
                 + (if is_paused_notification op \<and> stopping s \<and> stream s then 1 else 0)
           \<and> (ev_head s' \<noteq> ev_head s \<longrightarrow> is_process op)
           \<and> (ev_tail s' \<noteq> ev_tail s \<longrightarrow> is_process op \<or> op = OpDrain)
           \<and> (stream s' \<noteq> stream s \<longrightarrow> op = OpDestroy)"
proof (cases op)
  case (OpProcess dequeued)
  obtain s' where s': "process engine dequeued s = Some s'"
    using process_total [of engine dequeued s] by blast
  show ?thesis
    using s' process_effect [OF s'] assms lifecycle_fields [of s' s]
    by (simp add: OpProcess is_process_def is_paused_notification_def)
next
  case OpDrain
  have st: "step engine c op s = Some (drained c s)"
    unfolding OpDrain by (rule drain_step [OF assms])
  show ?thesis
    unfolding st
    using queue_ok_drained [OF assms, of c] lifecycle_fields [OF drained_fields(1), of c s]
    by (simp add: OpDrain is_process_def is_paused_notification_def drained_fields)
next
  case (OpStateChanged st err)
  show ?thesis
    using assms
    by (simp add: OpStateChanged is_process_def is_paused_notification_def
          state_changed_fields queue_ok_def)
next
  case OpDestroy
  show ?thesis
    using assms
    by (simp add: OpDestroy is_process_def is_paused_notification_def destroy_fields
          queue_ok_def)
next
  case OpStop
  show ?thesis
    using assms
    by (simp add: OpStop is_process_def is_paused_notification_def stop_fields queue_ok_def)
next
  case OpSignal
  show ?thesis
    using assms
    by (simp add: OpSignal is_process_def is_paused_notification_def signalHandler_fields
          queue_ok_def)
next
  case OpMonitorPoll
  show ?thesis
    using assms
    by (simp add: OpMonitorPoll is_process_def is_paused_notification_def
          quit_monitor_poll_fields queue_ok_def)
qed

lemma run_ops_append:
  "run_ops engine c (ops1 @ ops2) s
     = (case run_ops engine c ops1 s of None \<Rightarrow> None | Some s1 \<Rightarrow> run_ops engine c ops2 s1)"
  by (induction ops1 arbitrary: s) (simp_all split: option.split)

lemma run_ops_effect:
  fixes s :: "('f::zero, 'e) DetectorState"
  assumes "queue_ok s"
  shows "\<exists>s'. run_ops engine c ops s = Some s' \<and> queue_ok s'
           \<and> (quit s \<longrightarrow> quit s') \<and> (stopping s \<longrightarrow> stopping s')
           \<and> (stopping s' \<and> \<not> stopping s \<longrightarrow> OpStop \<in> set ops)
           \<and> disconnects s \<le> disconnects s'
           \<and> disconnects s' \<le> disconnects s + length (filter is_paused_notification ops)
           \<and> (disconnects s' \<noteq> disconnects s \<longrightarrow> stopping s \<or> OpStop \<in> set ops)
           \<and> (stream s' \<noteq> stream s \<longrightarrow> OpDestroy \<in> set ops)"
  using assms
proof (induction ops arbitrary: s)
  case Nil
  then show ?case by simp
next
  case (Cons op ops)
  obtain s1 where s1: "step engine c op s = Some s1" "queue_ok s1"
    "quit s \<longrightarrow> quit s1" "stopping s \<longrightarrow> stopping s1"
    "stopping s1 \<and> \<not> stopping s \<longrightarrow> op = OpStop"
    "disconnects s1
       = disconnects s + (if is_paused_notification op \<and> stopping s \<and> stream s then 1 else 0)"
    "stream s1 \<noteq> stream s \<longrightarrow> op = OpDestroy"
    using step_effect [OF Cons.prems, of engine c op] by blast
  obtain s2 where s2: "run_ops engine c ops s1 = Some s2" "queue_ok s2"
    "quit s1 \<longrightarrow> quit s2" "stopping s1 \<longrightarrow> stopping s2"
    "stopping s2 \<and> \<not> stopping s1 \<longrightarrow> OpStop \<in> set ops"
    "disconnects s1 \<le> disconnects s2"
    "disconnects s2 \<le> disconnects s1 + length (filter is_paused_notification ops)"
    "disconnects s2 \<noteq> disconnects s1 \<longrightarrow> stopping s1 \<or> OpStop \<in> set ops"
    "stream s2 \<noteq> stream s1 \<longrightarrow> OpDestroy \<in> set ops"
    using Cons.IH [OF s1(2)] by blast
  have run: "run_ops engine c (op # ops) s = Some s2" using s1(1) s2(1) by simp
  have a: "quit s \<longrightarrow> quit s2" "stopping s \<longrightarrow> stopping s2"
    using s1 s2 by blast+
  have b: "stopping s2 \<and> \<not> stopping s \<longrightarrow> OpStop \<in> set (op # ops)"
    using s1(5) s2(5) by auto
  have c1: "disconnects s \<le> disconnects s2" using s1(6) s2(6) by simp
  have c2: "disconnects s2 \<le> disconnects s + length (filter is_paused_notification (op # ops))"
    using s1(6) s2(7) by (auto split: if_splits)
  have c3: "disconnects s2 \<noteq> disconnects s \<longrightarrow> stopping s \<or> OpStop \<in> set (op # ops)"
    using s1(5,6) s2(8) by (auto split: if_splits)
  have d: "stream s2 \<noteq> stream s \<longrightarrow> OpDestroy \<in> set (op # ops)"
    using s1(7) s2(9) by auto
  show ?case using run s2(2) a b c1 c2 c3 d by blast
qed

lemma run_ops_no_paused:
  fixes s :: "('f::zero, 'e) DetectorState"
  assumes "queue_ok s" "\<forall>op \<in> set ops. \<not> is_paused_notification op"
  shows "\<exists>s'. run_ops engine c ops s = Some s' \<and> queue_ok s' \<and> disconnects s' = disconnects s
           \<and> (stopping s \<longrightarrow> stopping s')
           \<and> (stream s \<and> OpDestroy \<notin> set ops \<longrightarrow> stream s')"
proof -
  have "filter is_paused_notification ops = []" using assms(2) by (simp add: filter_empty_conv)
  then show ?thesis using run_ops_effect [OF assms(1), of engine c ops] by auto
qed

section \<open>Ownership of the ring indices\<close>

lemma fold_push_indices:
  assumes "queue_ok s" "ev_tail s = ev_head s" "length es \<le> kEventCap - 1"
  shows "ev_tail (fold spsc_push es s) = ev_tail s
         \<and> ev_head (fold spsc_push es s) = (ev_head s + length es) mod kEventCap
         \<and> queue_size (fold spsc_push es s) = length es"
  using assms(3)
proof (induction es rule: rev_induct)
  case Nil
  then show ?case
    using assms(1,2) queue_size_zero_iff [OF assms(1)] by (simp add: queue_ok_def)
next
  case (snoc e es)
  let ?t = "fold spsc_push es s"
  have IH: "ev_tail ?t = ev_tail s" "ev_head ?t = (ev_head s + length es) mod kEventCap"
    "queue_size ?t = length es"
    using snoc by simp_all
  have ok: "queue_ok ?t" using queue_contents_fold_push [OF assms(1), of es] by simp
  have room: "queue_size ?t \<noteq> kEventCap - 1" using IH(3) snoc.prems by simp
  then have nf: "(ev_head ?t + 1) mod kEventCap \<noteq> ev_tail ?t"
    using full_iff [OF ok] by simp
  have "ev_tail (spsc_push e ?t) = ev_tail s"
    using nf IH(1) by (simp add: spsc_push_tail)
  moreover have "ev_head (spsc_push e ?t) = (ev_head s + length (es @ [e])) mod kEventCap"
    unfolding spsc_push_head IH(2) by (simp add: mod_simps)
  moreover have "queue_size (spsc_push e ?t) = length (es @ [e])"
    using queue_size_push [OF ok, of e] room IH(3) by simp
  ultimately show ?case by simp
qed

text \<open>
  Claim C2, as the code has it. Only the real-time callback moves the write index, by
  one slot modulo \<open>kEventCap\<close> for each event pushed. The read index is moved by the
  drain, up to the write index, and also by the real-time callback: a push that finds the
  ring full moves the read index on by one, which drops the oldest event, before it
  writes. No other operation touches either index, both stay below \<open>kEventCap = 1024\<close>,
  the ring never holds more than \<open>kEventCap - 1\<close> events, and every operation returns.
\<close>

theorem ring_index_ownership:
  fixes s :: "('f::zero, 'e) DetectorState"
  assumes "queue_ok s"
  shows "ev_head (spsc_push e s) = (ev_head s + 1) mod kEventCap
         \<and> ev_tail (spsc_push e s)
             = (if (ev_head s + 1) mod kEventCap = ev_tail s then (ev_tail s + 1) mod kEventCap
                else ev_tail s)
         \<and> ev_head (spsc_push e s) < kEventCap \<and> ev_tail (spsc_push e s) < kEventCap
         \<and> queue_contents (spsc_push e s)
             = (if (ev_head s + 1) mod kEventCap = ev_tail s then tl (queue_contents s)
                else queue_contents s) @ [e]
         \<and> length (queue_contents (spsc_push e s)) \<le> kEventCap - 1
         \<and> (\<exists>consumed s'. drain c s = Some (consumed, s')
               \<and> ev_head s' = ev_head s \<and> ev_tail s' = ev_head s)
         \<and> (\<exists>s'. step engine c op s = Some s'
               \<and> ev_head s' < kEventCap \<and> ev_tail s' < kEventCap
               \<and> length (events s') = kEventCap
               \<and> (ev_head s' \<noteq> ev_head s \<longrightarrow> is_process op)
               \<and> (ev_tail s' \<noteq> ev_tail s \<longrightarrow> is_process op \<or> op = OpDrain))"
proof -
  have ok': "queue_ok (spsc_push e s)" using assms by (rule queue_ok_spsc_push)
  have bounds: "ev_head (spsc_push e s) < kEventCap \<and> ev_tail (spsc_push e s) < kEventCap"
    using ok' by (simp add: queue_ok_def)
  have contents: "queue_contents (spsc_push e s)
             = (if (ev_head s + 1) mod kEventCap = ev_tail s then tl (queue_contents s)
                else queue_contents s) @ [e]"
    using queue_contents_push [OF assms, of e] full_iff [OF assms] by simp
  have cap: "length (queue_contents (spsc_push e s)) \<le> kEventCap - 1"
    using queue_size_le [OF ok'] by (simp add: length_queue_contents)
  have dr: "\<exists>consumed s'. drain c s = Some (consumed, s')
               \<and> ev_head s' = ev_head s \<and> ev_tail s' = ev_head s"
    by (simp add: drain_def drain_loop_queue [OF assms] drained_fields)
  have st: "\<exists>s'. step engine c op s = Some s'
               \<and> ev_head s' < kEventCap \<and> ev_tail s' < kEventCap
               \<and> length (events s') = kEventCap
               \<and> (ev_head s' \<noteq> ev_head s \<longrightarrow> is_process op)
               \<and> (ev_tail s' \<noteq> ev_tail s \<longrightarrow> is_process op \<or> op = OpDrain)"
    using step_effect [OF assms, of engine c op] unfolding queue_ok_def by blast
  show ?thesis
    using bounds contents cap dr st by (simp add: spsc_push_head spsc_push_tail)
qed

theorem ring_index_ownership_witness:
  "queue_ok connected_detector
   \<and> ev_head (spsc_push (numbered_event 7) connected_detector) = 1
   \<and> ev_tail (spsc_push (numbered_event 7) connected_detector) = 0
   \<and> queue_contents (spsc_push (numbered_event 7) connected_detector) = [numbered_event 7]
   \<and> (\<exists>s'. step recording_engine id OpStop connected_detector = Some s'
          \<and> ev_head s' = ev_head connected_detector \<and> ev_tail s' = ev_tail connected_detector)"
proof -
  have ok: "queue_ok connected_detector"
    by (simp add: connected_detector_def recording_detector_def queue_ok_def
          DetectorState_ctor_def kEventCap_def)
  have idx: "ev_head connected_detector = 0" "ev_tail connected_detector = 0"
    by (simp_all add: connected_detector_def recording_detector_def DetectorState_ctor_def)
  have empty: "queue_contents connected_detector = []"
    by (simp add: queue_contents_def queue_size_def idx)
  note T = ring_index_ownership [OF ok, of "numbered_event 7" id recording_engine OpStop]
  have push: "ev_head (spsc_push (numbered_event 7) connected_detector) = 1"
    "ev_tail (spsc_push (numbered_event 7) connected_detector) = 0"
    "queue_contents (spsc_push (numbered_event 7) connected_detector) = [numbered_event 7]"
    using T by (simp_all add: idx empty kEventCap_def)
  have "\<not> is_process (OpStop :: real run_op)" "(OpStop :: real run_op) \<noteq> OpDrain"
    by (simp_all add: is_process_def)
  then have stp: "\<exists>s'. step recording_engine id OpStop connected_detector = Some s'
          \<and> ev_head s' = ev_head connected_detector \<and> ev_tail s' = ev_tail connected_detector"
    using T by blast
  show ?thesis using ok push stp by blast
qed

text \<open>
  Claim C2 as stated fails where it says that only the consumer advances the read
  index: after 1023 pushes into the empty queue the ring is full, and the next push, made
  by the producer, moves the read index from 0 to 1.
\<close>

theorem producer_advances_tail_counterexample:
  "ev_tail (fold spsc_push (map numbered_event [0 ..< 1023]) fresh_detector) = 0
   \<and> ev_tail (spsc_push (numbered_event 1023)
               (fold spsc_push (map numbered_event [0 ..< 1023]) fresh_detector)) = 1"
proof -
  let ?full = "fold spsc_push (map numbered_event [0 ..< 1023]) fresh_detector"
  have ok: "queue_ok fresh_detector"
    by (simp add: fresh_detector_def queue_ok_ctor)
  have idx: "ev_tail fresh_detector = 0" "ev_head fresh_detector = 0"
    by (simp_all add: fresh_detector_def DetectorState_ctor_def)
  have len: "length (map numbered_event [0 ..< 1023]) \<le> kEventCap - 1"
    by (simp add: kEventCap_def)
  have "ev_tail ?full = ev_tail fresh_detector
        \<and> ev_head ?full = (ev_head fresh_detector + length (map numbered_event [0 ..< 1023]))
                            mod kEventCap
        \<and> queue_size ?full = length (map numbered_event [0 ..< 1023])"
    using idx by (intro fold_push_indices [OF ok _ len]) simp
  then have t: "ev_tail ?full = 0" and h: "ev_head ?full = 1023"
    by (simp_all add: idx kEventCap_def)
  have "ev_tail (spsc_push (numbered_event 1023) ?full) = 1"
    unfolding spsc_push_tail t h by (simp add: kEventCap_def)
  then show ?thesis using t by simp
qed

section \<open>Disconnecting the stream\<close>

lemma queue_ok_stop: "queue_ok s \<Longrightarrow> queue_ok (stop s)"
  by (simp add: queue_ok_def stop_fields)

lemma nominal_shutdown:
  fixes s :: "('f::zero, 'e) DetectorState"
  assumes "queue_ok s" "stream s"
    and "\<forall>op \<in> set (before @ after). \<not> is_paused_notification op"
    and "OpDestroy \<notin> set before"
  shows "\<exists>s'. run_ops engine c
                (OpStop # before @ OpStateChanged PW_STREAM_STATE_PAUSED error # after) s
              = Some s'
           \<and> disconnects s' = disconnects s + 1"
proof -
  let ?s0 = "stop s"
  have ok0: "queue_ok ?s0" using assms(1) by (rule queue_ok_stop)
  have f0: "stopping ?s0" "stream ?s0" "disconnects ?s0 = disconnects s"
    using assms(2) by (simp_all add: stop_fields)
  have nb: "\<forall>op \<in> set before. \<not> is_paused_notification op"
    and na: "\<forall>op \<in> set after. \<not> is_paused_notification op"
    using assms(3) by simp_all
  obtain s1 where s1: "run_ops engine c before ?s0 = Some s1" "queue_ok s1"
    "disconnects s1 = disconnects ?s0" "stopping s1" "stream s1"
    using run_ops_no_paused [OF ok0 nb, of engine c] f0 assms(4) by blast
  let ?s2 = "state_changed PW_STREAM_STATE_PAUSED error s1"
  have ok2: "queue_ok ?s2" using s1(2) by (simp add: queue_ok_def state_changed_fields)
  have d2: "disconnects ?s2 = disconnects s1 + 1"
    using s1(4,5) by (simp add: state_changed_fields)
  obtain s3 where s3: "run_ops engine c after ?s2 = Some s3" "disconnects s3 = disconnects ?s2"
    using run_ops_no_paused [OF ok2 na, of engine c] by blast
  have "run_ops engine c (before @ OpStateChanged PW_STREAM_STATE_PAUSED error # after) ?s0
          = Some s3"
    using s1(1) s3(1) by (simp add: run_ops_append)
  then have "run_ops engine c
               (OpStop # before @ OpStateChanged PW_STREAM_STATE_PAUSED error # after) s
             = Some s3"
    by simp
  moreover have "disconnects s3 = disconnects s + 1"
    using s3(2) d2 s1(3) f0(3) by simp
  ultimately show ?thesis by blast
qed

text \<open>
  Claim C3, as the code has it. \<open>stop()\<close> itself never calls disconnect. Disconnect is
  called by the state-change callback only, once for each \<open>Paused\<close> notification that
  arrives while \<open>stopping\<close> is set and the stream is held: so never before a \<open>Paused\<close>
  notification, and never unless \<open>stop()\<close> has set \<open>stopping\<close> before. When exactly
  one \<open>Paused\<close> notification follows \<open>stop()\<close>, with the stream still held, disconnect
  is called exactly once. The code keeps no record of having disconnected: the number of
  calls is the number of such notifications.
\<close>

theorem disconnect_on_paused_after_stop:
  fixes s :: "('f::zero, 'e) DetectorState"
  assumes "queue_ok s"
  shows "disconnects (stop s) = disconnects s
         \<and> (\<exists>s'. step engine c op s = Some s'
               \<and> disconnects s'
                   = disconnects s
                     + (if is_paused_notification op \<and> stopping s \<and> stream s then 1 else 0))
         \<and> (\<exists>s'. run_ops engine c ops s = Some s'
               \<and> ((\<forall>op \<in> set ops. \<not> is_paused_notification op)
                    \<longrightarrow> disconnects s' = disconnects s)
               \<and> (\<not> stopping s \<and> OpStop \<notin> set ops \<longrightarrow> disconnects s' = disconnects s)
               \<and> disconnects s'
                   \<le> disconnects s + length (filter is_paused_notification ops))
         \<and> (stream s \<and> (\<forall>op \<in> set (before @ after). \<not> is_paused_notification op)
               \<and> OpDestroy \<notin> set before
             \<longrightarrow> (\<exists>s'. run_ops engine c
                           (OpStop # before @ OpStateChanged PW_STREAM_STATE_PAUSED error # after)
                           s = Some s'
                       \<and> disconnects s' = disconnects s + 1))"
proof -
  have a: "disconnects (stop s) = disconnects s" by (simp add: stop_fields)
  have b: "\<exists>s'. step engine c op s = Some s'
               \<and> disconnects s'
                   = disconnects s
                     + (if is_paused_notification op \<and> stopping s \<and> stream s then 1 else 0)"
    using step_effect [OF assms, of engine c op] by blast
  obtain s' where s': "run_ops engine c ops s = Some s'"
    "disconnects s \<le> disconnects s'"
    "disconnects s' \<le> disconnects s + length (filter is_paused_notification ops)"
    "disconnects s' \<noteq> disconnects s \<longrightarrow> stopping s \<or> OpStop \<in> set ops"
    using run_ops_effect [OF assms, of engine c ops] by blast
  have "(\<forall>op \<in> set ops. \<not> is_paused_notification op) \<longrightarrow> disconnects s' = disconnects s"
    using s'(2,3) by (auto simp add: filter_empty_conv)
  then have c: "\<exists>s'. run_ops engine c ops s = Some s'
               \<and> ((\<forall>op \<in> set ops. \<not> is_paused_notification op)
                    \<longrightarrow> disconnects s' = disconnects s)
               \<and> (\<not> stopping s \<and> OpStop \<notin> set ops \<longrightarrow> disconnects s' = disconnects s)
               \<and> disconnects s'
                   \<le> disconnects s + length (filter is_paused_notification ops)"
    using s' by blast
  have d: "stream s \<and> (\<forall>op \<in> set (before @ after). \<not> is_paused_notification op)
               \<and> OpDestroy \<notin> set before
             \<longrightarrow> (\<exists>s'. run_ops engine c
                           (OpStop # before @ OpStateChanged PW_STREAM_STATE_PAUSED error # after)
                           s = Some s'
                       \<and> disconnects s' = disconnects s + 1)"
    using nominal_shutdown [OF assms, of before after engine c error] by blast
  show ?thesis using a b c d by blast
qed

lemma connected_detector_fields:
  "queue_ok connected_detector" "stream connected_detector" "main_loop connected_detector"
  "\<not> stopping connected_detector" "\<not> quit connected_detector"
  "instance_set connected_detector" "quit_monitor connected_detector"
  "disconnects connected_detector = 0" "pw_calls connected_detector = []"
  "ev_head connected_detector = 0" "ev_tail connected_detector = 0"
  by (simp_all add: connected_detector_def recording_detector_def queue_ok_def disconnects_def
        DetectorState_ctor_def kEventCap_def)

theorem disconnect_on_paused_after_stop_witness:
  "queue_ok connected_detector \<and> stream connected_detector
   \<and> map_option disconnects
        (run_ops recording_engine id
           [OpStop, OpProcess None, OpStateChanged PW_STREAM_STATE_PAUSED None, OpDrain]
           connected_detector) = Some 1
   \<and> map_option disconnects
        (step recording_engine id (OpStateChanged PW_STREAM_STATE_PAUSED None)
           connected_detector) = Some 0"
proof -
  note ok = connected_detector_fields(1)
  have np: "\<forall>op \<in> set ([OpProcess None] @ [OpDrain :: real run_op]). \<not> is_paused_notification op"
    by (simp add: is_paused_notification_def)
  have nd: "OpDestroy \<notin> set [OpProcess None :: real run_op]" by simp
  note T = disconnect_on_paused_after_stop [OF ok, of recording_engine id
      "OpStateChanged PW_STREAM_STATE_PAUSED None" "[]" "[OpProcess None]" "[OpDrain]" None]
  have "\<exists>s'. run_ops recording_engine id
               (OpStop # [OpProcess None] @ OpStateChanged PW_STREAM_STATE_PAUSED None # [OpDrain])
               connected_detector = Some s'
             \<and> disconnects s' = disconnects connected_detector + 1"
    using T connected_detector_fields(2) np nd by blast
  then have once: "map_option disconnects
        (run_ops recording_engine id
           [OpStop, OpProcess None, OpStateChanged PW_STREAM_STATE_PAUSED None, OpDrain]
           connected_detector) = Some 1"
    by (auto simp add: connected_detector_fields(8))
  have "\<exists>s'. step recording_engine id (OpStateChanged PW_STREAM_STATE_PAUSED None)
               connected_detector = Some s'
             \<and> disconnects s'
                 = disconnects connected_detector
                   + (if is_paused_notification
                           (OpStateChanged PW_STREAM_STATE_PAUSED None :: real run_op)
                         \<and> stopping connected_detector \<and> stream connected_detector
                      then 1 else 0)"
    using T by blast
  then have never: "map_option disconnects
        (step recording_engine id (OpStateChanged PW_STREAM_STATE_PAUSED None)
           connected_detector) = Some 0"
    by (auto simp add: connected_detector_fields)
  show ?thesis using ok connected_detector_fields(2) once never by blast
qed

text \<open>
  Claim C3 as stated fails where it says that disconnect is called exactly once per run.
  After \<open>stop()\<close> on a streaming detector, a transport that reports an error instead of
  \<open>Paused\<close> gets no disconnect at all, and one that reports \<open>Paused\<close> twice gets two.
\<close>

theorem disconnect_count_counterexample:
  "map_option disconnects
     (run_ops recording_engine id
        [OpStop, OpStateChanged PW_STREAM_STATE_ERROR (Some ''node gone'')]
        connected_detector) = Some 0
   \<and> map_option disconnects
       (run_ops recording_engine id
          [OpStop, OpStateChanged PW_STREAM_STATE_PAUSED None,
           OpStateChanged PW_STREAM_STATE_PAUSED None]
          connected_detector) = Some 2"
  by (simp add: state_changed_fields stop_fields connected_detector_fields)

section \<open>Stopping twice\<close>

lemma latest_set_active_append:
  "latest_set_active (xs @ ys) r = latest_set_active ys (latest_set_active xs r)"
  by (induction xs r rule: latest_set_active.induct) simp_all

lemma latest_set_active_replicate:
  "latest_set_active (replicate n (PwStreamSetActive b)) r = (if n = 0 then r else Some b)"
  by (induction n arbitrary: r) simp_all

lemma stop_again:
  assumes "quit t" "stream t \<longrightarrow> stopping t"
  shows "stop t = t\<lparr>pw_calls := pw_calls t @ (if stream t then [PwStreamSetActive False] else [])\<rparr>"
  using assms by (cases t) (simp add: stop_def Let_def)

lemma stop_funpow:
  "(stop ^^ Suc n) s
     = (stop s)\<lparr>pw_calls := pw_calls (stop s)
                   @ (if stream s then replicate n (PwStreamSetActive False) else [])\<rparr>"
proof (induction n)
  case 0
  then show ?case by simp
next
  case (Suc n)
  let ?t = "(stop ^^ Suc n) s"
  have t: "?t = (stop s)\<lparr>pw_calls := pw_calls (stop s)
                   @ (if stream s then replicate n (PwStreamSetActive False) else [])\<rparr>"
    by (rule Suc.IH)
  have q: "quit ?t" "stream ?t = stream s" "stream ?t \<longrightarrow> stopping ?t"
    unfolding t by (simp_all add: stop_fields)
  have "(stop ^^ Suc (Suc n)) s = stop ?t" by simp
  also have "\<dots> = ?t\<lparr>pw_calls := pw_calls ?t
                       @ (if stream ?t then [PwStreamSetActive False] else [])\<rparr>"
    by (rule stop_again [OF q(1,3)])
  also have "\<dots> = (stop s)\<lparr>pw_calls := pw_calls (stop s)
                   @ (if stream s then replicate (Suc n) (PwStreamSetActive False) else [])\<rparr>"
    unfolding q(2) unfolding t by (simp add: replicate_append_same)
  finally show ?case .
qed

text \<open>
  Claim C5. Calling \<open>stop()\<close> once more, any number of times, leaves the detector as the
  first call left it, except that each further call on a held stream repeats the request
  \<open>pw_stream_set_active(stream, false)\<close>: the quit flag, the stopping flag and the
  activity last requested of the transport are those of a single call.
\<close>

theorem stop_idempotent:
  "quit ((stop ^^ Suc n) s) = quit (stop s)
   \<and> stopping ((stop ^^ Suc n) s) = stopping (stop s)
   \<and> requested_active ((stop ^^ Suc n) s) = requested_active (stop s)
   \<and> (stop ^^ Suc n) s
       = (stop s)\<lparr>pw_calls := pw_calls (stop s)
                     @ (if stream s then replicate n (PwStreamSetActive False) else [])\<rparr>
   \<and> quit (stop s) \<and> (stream s \<longrightarrow> stopping (stop s) \<and> requested_active (stop s) = Some False)"
proof -
  have "requested_active ((stop ^^ Suc n) s) = requested_active (stop s)"
    unfolding stop_funpow requested_active_def
    by (simp add: latest_set_active_append latest_set_active_replicate stop_fields)
  moreover have "stream s \<longrightarrow> requested_active (stop s) = Some False"
    by (simp add: requested_active_def stop_fields latest_set_active_append)
  ultimately show ?thesis
    using stop_funpow [of n s] by (simp add: stop_fields)
qed

theorem stop_idempotent_witness:
  "stream connected_detector
   \<and> requested_active ((stop ^^ Suc 2) connected_detector) = Some False
   \<and> quit ((stop ^^ Suc 2) connected_detector) \<and> stopping ((stop ^^ Suc 2) connected_detector)
   \<and> (stop ^^ Suc 2) connected_detector
       = (stop connected_detector)
           \<lparr>pw_calls := [PwStreamSetActive False, PwStreamSetActive False, PwStreamSetActive False]\<rparr>"
proof -
  note T = stop_idempotent [of 2 connected_detector]
  note held = connected_detector_fields(2)
  have t1: "quit ((stop ^^ Suc 2) connected_detector) = quit (stop connected_detector)"
    and t2: "stopping ((stop ^^ Suc 2) connected_detector) = stopping (stop connected_detector)"
    and t3: "requested_active ((stop ^^ Suc 2) connected_detector)
               = requested_active (stop connected_detector)"
    and t4: "(stop ^^ Suc 2) connected_detector
          = (stop connected_detector)
              \<lparr>pw_calls := pw_calls (stop connected_detector)
                            @ (if stream connected_detector
                               then replicate 2 (PwStreamSetActive False) else [])\<rparr>"
    and t5: "quit (stop connected_detector)"
    and t6: "stream connected_detector \<longrightarrow> stopping (stop connected_detector)
               \<and> requested_active (stop connected_detector) = Some False"
    using T by blast+
  have r: "requested_active ((stop ^^ Suc 2) connected_detector) = Some False"
    unfolding t3 using t6 held by blast
  have q: "quit ((stop ^^ Suc 2) connected_detector)"
    unfolding t1 by (rule t5)
  have st: "stopping ((stop ^^ Suc 2) connected_detector)"
    unfolding t2 using t6 held by blast
  have calls: "pw_calls (stop connected_detector) @ replicate 2 (PwStreamSetActive False)
                 = [PwStreamSetActive False, PwStreamSetActive False, PwStreamSetActive False]"
    by (simp add: stop_fields connected_detector_fields numeral_2_eq_2)
  have "(stop ^^ Suc 2) connected_detector
          = (stop connected_detector)
              \<lparr>pw_calls := pw_calls (stop connected_detector)
                            @ replicate 2 (PwStreamSetActive False)\<rparr>"
    using t4 held by (simp only: if_True)
  then have eq: "(stop ^^ Suc 2) connected_detector
       = (stop connected_detector)
           \<lparr>pw_calls := [PwStreamSetActive False, PwStreamSetActive False, PwStreamSetActive False]\<rparr>"
    unfolding calls .
  show ?thesis using held r q st eq by blast
qed

section \<open>The shutdown flags\<close>

lemma step_sets_quit:
  fixes s :: "('f::zero, 'e) DetectorState"
  assumes "queue_ok s" "step engine c op s = Some s'" "quit s'" "\<not> quit s"
  shows "op = OpStop \<or> op = OpSignal"
proof (cases op)
  case (OpProcess dequeued)
  then have "process engine dequeued s = Some s'" using assms(2) by simp
  then have "quit s' = quit s"
    using process_effect(1) [of engine dequeued s s'] lifecycle_fields(1) [of s' s] by blast
  then show ?thesis using assms(3,4) by simp
next
  case OpDrain
  have "step engine c op s = Some (drained c s)"
    unfolding OpDrain by (rule drain_step [OF assms(1)])
  then have "s' = drained c s" using assms(2) by (metis option.inject)
  then have "quit s' = quit s"
    using lifecycle_fields(1) [OF drained_fields(1), of c s] by simp
  then show ?thesis using assms(3,4) by simp
next
  case (OpStateChanged st err)
  then show ?thesis using assms(2,3,4) by (auto simp add: state_changed_fields)
next
  case OpDestroy
  then show ?thesis using assms(2,3,4) by (auto simp add: destroy_fields)
next
  case OpStop
  then show ?thesis by simp
next
  case OpSignal
  then show ?thesis by simp
next
  case OpMonitorPoll
  then show ?thesis using assms(2,3,4) by (auto simp add: quit_monitor_poll_fields)
qed

lemma run_ops_sets_quit:
  fixes s :: "('f::zero, 'e) DetectorState"
  assumes "queue_ok s" "run_ops engine c ops s = Some s'" "quit s'" "\<not> quit s"
  shows "OpStop \<in> set ops \<or> OpSignal \<in> set ops"
  using assms
proof (induction ops arbitrary: s)
  case Nil
  then show ?case by simp
next
  case (Cons op ops)
  obtain s1 where s1: "step engine c op s = Some s1" "queue_ok s1"
    using step_effect [OF Cons.prems(1), of engine c op] by blast
  then have rest: "run_ops engine c ops s1 = Some s'" using Cons.prems(2) by simp
  show ?case
  proof (cases "quit s1")
    case True
    then have "op = OpStop \<or> op = OpSignal"
      using step_sets_quit [OF Cons.prems(1) s1(1)] Cons.prems(4) by blast
    then show ?thesis by auto
  next
    case False
    then have "OpStop \<in> set ops \<or> OpSignal \<in> set ops"
      using Cons.IH [OF s1(2) rest Cons.prems(3)] by blast
    then show ?thesis by auto
  qed
qed

lemma run_entry:
  fixes s :: "('f::zero, 'e) DetectorState"
  shows "run engine c ops s
           = (if main_loop s then run_ops engine c ops (s\<lparr>quit := False\<rparr>) else Some s)"
  by (simp add: run_def)

lemma run_two_points:
  fixes s :: "('f::zero, 'e) DetectorState"
  assumes "queue_ok s" "main_loop s"
  shows "\<exists>s1 s2. run engine c earlier s = Some s1
           \<and> run engine c (earlier @ later) s = Some s2
           \<and> run_ops engine c later s1 = Some s2
           \<and> (quit s1 \<longrightarrow> quit s2) \<and> (stopping s1 \<longrightarrow> stopping s2)
           \<and> (stopping s \<longrightarrow> stopping s1)
           \<and> (quit s1 \<longrightarrow> OpStop \<in> set earlier \<or> OpSignal \<in> set earlier)"
proof -
  let ?s0 = "s\<lparr>quit := False\<rparr>"
  have ok0: "queue_ok ?s0" using assms(1) by (simp add: queue_ok_def)
  have f0: "\<not> quit ?s0" "stopping ?s0 = stopping s" by simp_all
  obtain s1 where s1: "run_ops engine c earlier ?s0 = Some s1" "queue_ok s1"
    "stopping ?s0 \<longrightarrow> stopping s1"
    using run_ops_effect [OF ok0, of engine c earlier] by blast
  obtain s2 where s2: "run_ops engine c later s1 = Some s2"
    "quit s1 \<longrightarrow> quit s2" "stopping s1 \<longrightarrow> stopping s2"
    using run_ops_effect [OF s1(2), of engine c later] by blast
  have both: "run_ops engine c (earlier @ later) ?s0 = Some s2"
    using s1(1) s2(1) by (simp add: run_ops_append)
  have set: "quit s1 \<longrightarrow> OpStop \<in> set earlier \<or> OpSignal \<in> set earlier"
    using run_ops_sets_quit [OF ok0 s1(1)] f0(1) by blast
  have "run engine c earlier s = Some s1" "run engine c (earlier @ later) s = Some s2"
    using assms(2) s1(1) both by (simp_all add: run_entry)
  then show ?thesis using s2 s1(3) f0(2) set by blast
qed

text \<open>
  Claim C6, as the code has it. \<open>run()\<close> stores \<open>false\<close> into \<open>quit\<close> once, on entry,
  before the main loop starts: a request to quit that is pending at that moment is
  dropped, and \<open>quit\<close> is set during the run only if \<open>stop()\<close> or a signal comes while
  the loop runs. From the entry on, whatever is delivered while the loop runs (real-time
  callbacks, drains, state changes, the stream's destruction, \<open>stop()\<close>, signals, turns
  of the monitor), every operation returns, and a flag that is set at one point of the
  run is still set at every later point. \<open>stopping\<close> is never reset, by \<open>run()\<close>
  neither.
\<close>

theorem shutdown_flags_only_rise:
  fixes s :: "('f::zero, 'e) DetectorState"
  assumes "queue_ok s"
  shows "run engine c ops s
           = (if main_loop s then run_ops engine c ops (s\<lparr>quit := False\<rparr>) else Some s)
         \<and> (main_loop s \<longrightarrow>
               (\<exists>s1 s2. run engine c earlier s = Some s1
                  \<and> run engine c (earlier @ later) s = Some s2
                  \<and> run_ops engine c later s1 = Some s2
                  \<and> (quit s1 \<longrightarrow> quit s2) \<and> (stopping s1 \<longrightarrow> stopping s2)
                  \<and> (stopping s \<longrightarrow> stopping s1)
                  \<and> (quit s1 \<longrightarrow> OpStop \<in> set earlier \<or> OpSignal \<in> set earlier)))
         \<and> (\<exists>s'. step engine c op s = Some s'
               \<and> (quit s \<longrightarrow> quit s') \<and> (stopping s \<longrightarrow> stopping s')
               \<and> (quit s' \<and> \<not> quit s \<longrightarrow> op = OpStop \<or> op = OpSignal))
         \<and> (\<exists>s1 s2. run_ops engine c earlier s = Some s1
               \<and> run_ops engine c later s1 = Some s2
               \<and> run_ops engine c (earlier @ later) s = Some s2
               \<and> (quit s1 \<longrightarrow> quit s2) \<and> (stopping s1 \<longrightarrow> stopping s2))"
proof -
  have a: "run engine c ops s
           = (if main_loop s then run_ops engine c ops (s\<lparr>quit := False\<rparr>) else Some s)"
    by (rule run_entry)
  have r: "main_loop s \<longrightarrow>
               (\<exists>s1 s2. run engine c earlier s = Some s1
                  \<and> run engine c (earlier @ later) s = Some s2
                  \<and> run_ops engine c later s1 = Some s2
                  \<and> (quit s1 \<longrightarrow> quit s2) \<and> (stopping s1 \<longrightarrow> stopping s2)
                  \<and> (stopping s \<longrightarrow> stopping s1)
                  \<and> (quit s1 \<longrightarrow> OpStop \<in> set earlier \<or> OpSignal \<in> set earlier))"
    using run_two_points [OF assms, of engine c earlier later] by blast
  obtain t where t: "step engine c op s = Some t"
    "quit s \<longrightarrow> quit t" "stopping s \<longrightarrow> stopping t"
    using step_effect [OF assms, of engine c op] by blast
  have "quit t \<and> \<not> quit s \<longrightarrow> op = OpStop \<or> op = OpSignal"
    using step_sets_quit [OF assms t(1)] by blast
  then have b: "\<exists>s'. step engine c op s = Some s'
               \<and> (quit s \<longrightarrow> quit s') \<and> (stopping s \<longrightarrow> stopping s')
               \<and> (quit s' \<and> \<not> quit s \<longrightarrow> op = OpStop \<or> op = OpSignal)"
    using t by blast
  obtain s1 where s1: "run_ops engine c earlier s = Some s1" "queue_ok s1"
    using run_ops_effect [OF assms, of engine c earlier] by blast
  obtain s2 where s2: "run_ops engine c later s1 = Some s2"
    "quit s1 \<longrightarrow> quit s2" "stopping s1 \<longrightarrow> stopping s2"
    using run_ops_effect [OF s1(2), of engine c later] by blast
  have "run_ops engine c (earlier @ later) s = Some s2"
    using s1(1) s2(1) by (simp add: run_ops_append)
  then have d: "\<exists>s1 s2. run_ops engine c earlier s = Some s1
               \<and> run_ops engine c later s1 = Some s2
               \<and> run_ops engine c (earlier @ later) s = Some s2
               \<and> (quit s1 \<longrightarrow> quit s2) \<and> (stopping s1 \<longrightarrow> stopping s2)"
    using s1(1) s2 by blast
  show ?thesis using a r b d by blast
qed

theorem shutdown_flags_only_rise_witness:
  "queue_ok connected_detector \<and> main_loop connected_detector
   \<and> map_option quit (run recording_engine id [OpSignal] connected_detector) = Some True
   \<and> map_option quit
        (run recording_engine id
           ([OpSignal] @ [OpProcess None, OpMonitorPoll, OpDrain,
                          OpStateChanged PW_STREAM_STATE_PAUSED None, OpDestroy])
           connected_detector) = Some True
   \<and> map_option quit (run recording_engine id [OpDrain] (signalHandler connected_detector))
       = Some False
   \<and> map_option stopping (run recording_engine id [OpDrain] (stop connected_detector))
       = Some True
   \<and> map_option stopping (step recording_engine id OpDrain (stop connected_detector))
       = Some True"
proof -
  note ok = connected_detector_fields(1)
  note ml = connected_detector_fields(3)
  let ?later = "[OpProcess None, OpMonitorPoll, OpDrain,
                 OpStateChanged PW_STREAM_STATE_PAUSED None, OpDestroy] :: real run_op list"
  note T = shutdown_flags_only_rise [OF ok, where engine = recording_engine and c = id
      and earlier = "[OpSignal]" and later = ?later and ops = "[OpSignal]" and op = OpSignal]
  have first: "run recording_engine id [OpSignal] connected_detector
                 = Some (signalHandler (connected_detector\<lparr>quit := False\<rparr>))"
    using T ml by simp
  have set1: "quit (signalHandler (connected_detector\<lparr>quit := False\<rparr>))"
    by (simp add: signalHandler_fields connected_detector_fields)
  have w1: "map_option quit (run recording_engine id [OpSignal] connected_detector)
              = Some True"
    unfolding first using set1 by simp
  obtain s1 s2 where r: "run recording_engine id [OpSignal] connected_detector = Some s1"
    "run recording_engine id ([OpSignal] @ ?later) connected_detector = Some s2"
    "quit s1 \<longrightarrow> quit s2"
    using T ml by blast
  have "quit s2" using r(1,3) first set1 by simp
  then have w2: "map_option quit
        (run recording_engine id ([OpSignal] @ ?later) connected_detector) = Some True"
    unfolding r(2) by simp
  have oks: "queue_ok (signalHandler connected_detector)"
    using ok by (simp add: queue_ok_def signalHandler_fields)
  have mls: "main_loop (signalHandler connected_detector)"
    using ml by (simp add: signalHandler_def)
  obtain u where u: "run recording_engine id [OpDrain] (signalHandler connected_detector) = Some u"
    "quit u \<longrightarrow> OpStop \<in> set [OpDrain :: real run_op] \<or> OpSignal \<in> set [OpDrain :: real run_op]"
    using shutdown_flags_only_rise [OF oks, where engine = recording_engine and c = id
        and earlier = "[OpDrain]" and later = "[]"] mls
    by blast
  have w3: "map_option quit (run recording_engine id [OpDrain] (signalHandler connected_detector))
              = Some False"
    unfolding u(1) using u(2) by simp
  have ok': "queue_ok (stop connected_detector)" using ok by (rule queue_ok_stop)
  have ml': "main_loop (stop connected_detector)"
    using ml by (simp add: stop_def Let_def)
  have set2: "stopping (stop connected_detector)"
    by (simp add: stop_fields connected_detector_fields)
  note T' = shutdown_flags_only_rise [OF ok', where engine = recording_engine and c = id
      and earlier = "[OpDrain]" and later = "[]" and op = OpDrain]
  obtain v where v: "run recording_engine id [OpDrain] (stop connected_detector) = Some v"
    "stopping (stop connected_detector) \<longrightarrow> stopping v"
    using T' ml' by blast
  have w4: "map_option stopping (run recording_engine id [OpDrain] (stop connected_detector))
              = Some True"
    unfolding v(1) using v(2) set2 by simp
  obtain s' where s': "step recording_engine id OpDrain (stop connected_detector) = Some s'"
    "stopping (stop connected_detector) \<longrightarrow> stopping s'"
    using T' by blast
  have w5: "map_option stopping
        (step recording_engine id OpDrain (stop connected_detector)) = Some True"
    unfolding s'(1) using s'(2) set2 by simp
  show ?thesis using ok ml w1 w2 w3 w4 w5 by blast
qed

text \<open>
  Claim C6 as stated fails at the entry of \<open>run()\<close>, which is part of the run: with
  \<open>quit\<close> already set by a signal, \<open>run()\<close> resets it to false, and it stays false.
\<close>

theorem run_clears_quit_counterexample:
  "quit (signalHandler connected_detector)
   \<and> map_option quit (run recording_engine id [] (signalHandler connected_detector))
       = Some False"
proof -
  have "quit (signalHandler connected_detector)"
    by (simp add: signalHandler_fields connected_detector_fields)
  moreover have "main_loop (signalHandler connected_detector)"
    by (simp add: signalHandler_def connected_detector_fields)
  then have "run recording_engine id [] (signalHandler connected_detector)
               = Some ((signalHandler connected_detector)\<lparr>quit := False\<rparr>)"
    by (simp add: run_entry)
  ultimately show ?thesis by simp
qed

section \<open>The log\<close>

lemma open_log_lines:
  assumes "log_enabled s" "log_opens env"
  shows "open_log env s
           = Inr (s\<lparr>log_file := Some [log_title_line (utc_current_time env), log_header_line]\<rparr>)"
  using assms by (simp add: open_log_def println_log_def Let_def)

lemma open_log_Inr:
  assumes "open_log env s = Inr s'"
  shows "log_file s' = (if log_enabled s
                        then Some [log_title_line (utc_current_time env), log_header_line]
                        else log_file s)"
    and "log_enabled s' = log_enabled s"
  using assms by (auto simp add: open_log_def println_log_def Let_def split: if_splits)

lemma initialize_Inr:
  assumes "initialize env s = Inr s'"
  shows "log_file s' = (if log_enabled s
                        then Some [log_title_line (utc_current_time env), log_header_line]
                        else log_file s)"
    and "log_enabled s' = log_enabled s"
proof -
  obtain s1 where s1: "open_log env s = Inr s1"
    using assms by (cases "open_log env s") (simp_all add: initialize_def)
  have "log_file s' = log_file s1 \<and> log_enabled s' = log_enabled s1"
    using assms unfolding initialize_def s1
    by (auto simp add: Let_def split: if_splits)
  then show "log_file s' = (if log_enabled s
                        then Some [log_title_line (utc_current_time env), log_header_line]
                        else log_file s)"
    and "log_enabled s' = log_enabled s"
    using open_log_Inr [OF s1] by simp_all
qed

lemma log_lines_detected:
  assumes "\<forall>event \<in> set evs. is_beat event \<or> is_onset event"
  shows "log_lines c n evs = map (\<lambda>i. log_event_line (c (n + i)) (evs ! i)) [0 ..< length evs]"
  using assms
proof (induction evs arbitrary: n)
  case Nil
  then show ?case by simp
next
  case (Cons e es)
  have "[0 ..< length (e # es)] = 0 # map Suc [0 ..< length es]"
    by (simp add: upt_conv_Cons map_Suc_upt del: upt_Suc)
  then have "map (\<lambda>i. log_event_line (c (n + i)) ((e # es) ! i)) [0 ..< length (e # es)]
               = log_event_line (c n) e
                 # map (\<lambda>i. log_event_line (c (n + 1 + i)) (es ! i)) [0 ..< length es]"
    by (simp add: comp_def)
  then show ?case using Cons by simp
qed

lemma log_event_line_not_header: "log_event_line t e \<noteq> log_header_line"
  by (simp add: log_event_line_def log_header_line_def)

lemma count_header_log_lines: "count_list (log_lines c n evs) log_header_line = 0"
  by (induction evs arbitrary: n) (simp_all add: log_event_line_not_header)

lemma drain_log:
  assumes "queue_ok s" "log_enabled s" "log_file s = Some written"
  shows "drain c s = Some (queue_contents s, drained c s)"
    and "log_file (drained c s)
           = Some (written @ log_lines c (clock_reads s) (queue_contents s))"
  using assms by (simp_all add: drain_def drain_loop_queue drained_def)

lemma queue_contents_cong:
  assumes "events t = events s" "ev_head t = ev_head s" "ev_tail t = ev_tail s"
  shows "queue_contents t = queue_contents s" "queue_ok t = queue_ok s"
  using assms by (simp_all add: queue_contents_def queue_size_def queue_ok_def)

lemma detected_events_push:
  assumes "queue_ok s" "detected_events s"
    and "is_beat e \<or> is_onset e" "\<not> pitch_enabled s \<longrightarrow> pitch_hz e = 0"
  shows "detected_events (spsc_push e s)"
proof -
  have pe: "pitch_enabled (spsc_push e s) = pitch_enabled s"
    by (simp add: spsc_push_def Let_def)
  have "set (tl (queue_contents s)) \<subseteq> set (queue_contents s)"
    by (cases "queue_contents s") auto
  then have "set (queue_contents (spsc_push e s)) \<subseteq> insert e (set (queue_contents s))"
    unfolding queue_contents_push [OF assms(1)]
    by auto
  then show ?thesis
    using assms(2,3,4) unfolding detected_events_def pe by auto
qed

lemma detected_events_process_block:
  assumes "queue_ok s" "detected_events s"
  shows "detected_events (process_block engine block s)"
proof -
  have keep: "queue_ok t \<and> detected_events t"
    if "events t = events s" "ev_head t = ev_head s" "ev_tail t = ev_tail s"
      "pitch_enabled t = pitch_enabled s" for t :: "('a, 'b) DetectorState"
    using assms queue_contents_cong [OF that(1,2,3)] that(4)
    by (simp add: detected_events_def)
  show ?thesis
    unfolding process_block_def Let_def
    by (auto split: prod.split if_splits intro!: detected_events_push
          simp add: keep)
qed

lemma detected_events_fold_process_block:
  assumes "queue_ok s" "detected_events s"
  shows "detected_events (fold (process_block engine) blks s)"
  using assms
  by (induction blks arbitrary: s)
    (simp_all add: queue_ok_process_block detected_events_process_block)

lemma detected_events_process:
  fixes s :: "('f::zero, 'e) DetectorState"
  assumes "queue_ok s" "detected_events s" "process engine dequeued s = Some s'"
  shows "detected_events s'"
proof -
  have pv: "detected_events t"
    if "makeBufferViewFromSpaMonoF32 b n = Inr view" "process_view engine view s = Some t"
    for b :: "'f spa_buffer option" and n and view :: "'f BufferView" and t
    using that(2) process_view_fold [OF blocks_of_valid_view [OF that(1)], of engine s]
      detected_events_fold_process_block [OF assms(1,2)]
    by auto
  have q: "detected_events (t\<lparr>pw_calls := cs\<rparr>) = detected_events t"
    "detected_events (t\<lparr>stderr_lines := l\<rparr>) = detected_events t"
    for t :: "('f, 'e) DetectorState" and l cs
    by (simp_all add: detected_events_def queue_contents_def queue_size_def)
  show ?thesis
    using assms(2,3) unfolding process_def Let_def
    by (auto simp add: q split: option.splits sum.splits if_splits dest: pv)
qed

lemma detected_events_empty:
  assumes "queue_ok s" "ev_tail s = ev_head s"
  shows "detected_events s"
  using assms queue_size_zero_iff [OF assms(1)]
  by (simp add: detected_events_def queue_contents_def)

lemma log_spsc_push:
  "log_file (spsc_push e s) = log_file s" "log_enabled (spsc_push e s) = log_enabled s"
  by (simp_all add: spsc_push_def Let_def)

lemma log_process_block:
  "log_file (process_block engine block s) = log_file s"
  "log_enabled (process_block engine block s) = log_enabled s"
  unfolding process_block_def Let_def
  by (simp_all add: log_spsc_push split: prod.split)

lemma log_fold_process_block:
  "log_file (fold (process_block engine) blks s) = log_file s"
  "log_enabled (fold (process_block engine) blks s) = log_enabled s"
  by (induction blks arbitrary: s) (simp_all add: log_process_block)

lemma log_process:
  fixes s :: "('f::zero, 'e) DetectorState"
  assumes "process engine dequeued s = Some s'"
  shows "log_file s' = log_file s" "log_enabled s' = log_enabled s"
proof -
  have pv: "log_file t = log_file s \<and> log_enabled t = log_enabled s"
    if "makeBufferViewFromSpaMonoF32 b n = Inr view" "process_view engine view s = Some t"
    for b :: "'f spa_buffer option" and n and view :: "'f BufferView" and t
    using that(2) process_view_fold [OF blocks_of_valid_view [OF that(1)], of engine s]
    by (auto simp add: log_fold_process_block)
  have "log_file s' = log_file s \<and> log_enabled s' = log_enabled s"
    using assms unfolding process_def Let_def
    by (auto split: option.splits sum.splits if_splits dest: pv)
  then show "log_file s' = log_file s" "log_enabled s' = log_enabled s" by simp_all
qed

text \<open>
  What one step of the run does to the log: a drain appends the lines of the events it
  consumes, every other operation leaves the log as it is.
\<close>

lemma step_log:
  fixes s :: "('f::zero, 'e) DetectorState"
  assumes "queue_ok s" "detected_events s" "log_enabled s" "log_file s = Some written"
  shows "\<exists>s'. step engine c op s = Some s' \<and> queue_ok s' \<and> detected_events s'
           \<and> log_enabled s'
           \<and> log_file s'
               = Some (written @ (if op = OpDrain
                                  then log_lines c (clock_reads s) (queue_contents s)
                                  else []))"
proof (cases op)
  case (OpProcess dequeued)
  obtain s' where s': "process engine dequeued s = Some s'"
    using process_total [of engine dequeued s] by blast
  show ?thesis
    using s' process_effect(2) [OF s' assms(1)] detected_events_process [OF assms(1,2) s']
      log_process [OF s'] assms(3,4)
    by (simp add: OpProcess)
next
  case OpDrain
  have st: "step engine c op s = Some (drained c s)"
    unfolding OpDrain by (rule drain_step [OF assms(1)])
  have ok: "queue_ok (drained c s)" using assms(1) by (rule queue_ok_drained)
  have det: "detected_events (drained c s)"
    using ok by (rule detected_events_empty) (simp add: drained_fields)
  have le: "log_enabled (drained c s)"
    using assms(3,4) by (simp add: drained_def)
  show ?thesis
    unfolding st using ok det le drain_log(2) [OF assms(1,3,4), of c]
    by (simp add: OpDrain)
next
  case (OpStateChanged st err)
  show ?thesis
    using assms
    by (simp add: OpStateChanged state_changed_def Let_def detected_events_def queue_ok_def
          queue_contents_def queue_size_def)
next
  case OpDestroy
  show ?thesis
    using assms
    by (simp add: OpDestroy destroy_def detected_events_def queue_ok_def
          queue_contents_def queue_size_def)
next
  case OpStop
  show ?thesis
    using assms
    by (simp add: OpStop stop_def Let_def detected_events_def queue_ok_def
          queue_contents_def queue_size_def)
next
  case OpSignal
  show ?thesis
    using assms
    by (simp add: OpSignal signalHandler_def detected_events_def queue_ok_def
          queue_contents_def queue_size_def)
next
  case OpMonitorPoll
  show ?thesis
    using assms
    by (simp add: OpMonitorPoll quit_monitor_poll_def Let_def detected_events_def queue_ok_def
          queue_contents_def queue_size_def)
qed

lemma run_ops_log:
  fixes s :: "('f::zero, 'e) DetectorState"
  assumes "queue_ok s" "detected_events s" "log_enabled s" "log_file s = Some written"
  shows "\<exists>s' lines. run_ops engine c ops s = Some s' \<and> queue_ok s' \<and> detected_events s'
           \<and> log_enabled s' \<and> log_file s' = Some (written @ lines)
           \<and> count_list lines log_header_line = 0"
  using assms
proof (induction ops arbitrary: s written)
  case Nil
  then show ?case by simp
next
  case (Cons op ops)
  let ?l1 = "if op = OpDrain then log_lines c (clock_reads s) (queue_contents s) else []"
  obtain s1 where s1: "step engine c op s = Some s1" "queue_ok s1" "detected_events s1"
    "log_enabled s1" "log_file s1 = Some (written @ ?l1)"
    using step_log [OF Cons.prems, of engine c op] by blast
  have c1: "count_list ?l1 log_header_line = 0"
    by (simp add: count_header_log_lines)
  obtain s' l2 where s': "run_ops engine c ops s1 = Some s'" "queue_ok s'"
    "detected_events s'" "log_enabled s'" "log_file s' = Some ((written @ ?l1) @ l2)"
    "count_list l2 log_header_line = 0"
    using Cons.IH [OF s1(2,3,4,5)] by blast
  have "run_ops engine c (op # ops) s = Some s'" using s1(1) s'(1) by simp
  moreover have "log_file s' = Some (written @ (?l1 @ l2))" using s'(5) by simp
  moreover have "count_list (?l1 @ l2) log_header_line = 0"
    using c1 s'(6) by simp
  ultimately show ?case using s'(2,3,4) by blast
qed

lemma initialize_succeeds:
  assumes "log_enabled s"
    and "log_opens env" "main_loop_new_ok env" "tempo_new_ok env"
    "input_vector_new_ok env" "output_vector_new_ok env" "onset_new_ok env"
    "pitch_enabled s \<longrightarrow> pitch_new_ok env \<and> pitch_buffer_new_ok env"
    "stream_new_ok env" "stream_connect_ok env"
  shows "initialize env s
           = Inr (s\<lparr>log_file := Some [log_title_line (utc_current_time env), log_header_line],
                    main_loop := True, stream := True, event_src := add_event_ok env\<rparr>)"
  using assms by (simp add: initialize_def open_log_def println_log_def Let_def)

lemma log_after_initialize_and_run:
  fixes s :: "('f::zero, 'e) DetectorState"
  assumes "queue_ok s" "ev_tail s = ev_head s" "log_enabled s"
  shows "\<exists>s' lines.
           run engine c ops
             (s\<lparr>log_file := Some [log_title_line t, log_header_line],
                main_loop := True, stream := True, event_src := e\<rparr>) = Some s'
           \<and> log_file s' = Some ([log_title_line t, log_header_line] @ lines)
           \<and> count_list lines log_header_line = 0"
proof -
  let ?s0 = "s\<lparr>log_file := Some [log_title_line t, log_header_line],
                main_loop := True, stream := True, event_src := e\<rparr>"
  let ?s1 = "?s0\<lparr>quit := False\<rparr>"
  have ok: "queue_ok ?s1" using assms(1) by (simp add: queue_ok_def)
  have "ev_tail ?s1 = ev_head ?s1" using assms(2) by simp
  then have det: "detected_events ?s1" using ok by (simp add: detected_events_empty)
  have le: "log_enabled ?s1" using assms(3) by simp
  have lf: "log_file ?s1 = Some [log_title_line t, log_header_line]" by simp
  have "run engine c ops ?s0 = run_ops engine c ops ?s1" by (simp add: run_def)
  then show ?thesis using run_ops_log [OF ok det le lf, of engine c ops] by auto
qed

text \<open>
  Claim C8. When logging is enabled and the file opens, \<open>initialize\<close> writes a title
  line and then the column header
  \<open># Timestamp,BPM,Onset,Pitch(Hz),ProcessTime(ms)\<close>; when every step of \<open>initialize\<close>
  succeeds, the detector it returns has a log of exactly these two lines, and when the
  file does not open \<open>initialize\<close> fails. The header is the only line of the log equal
  to it, after \<open>initialize\<close> and after any run that follows: the lines a drain writes are
  event lines, and no other operation of a run writes to the log. A drain writes one line
  for each event it consumes, in order, with the arguments: the wall-clock time of the
  write and its milliseconds within the second, the tempo if the event is a beat and zero
  otherwise, one or zero for the onset flag, and the pitch. The events the real-time
  callback queues are beats or onsets, with a pitch of zero when pitch detection is off.
\<close>

theorem log_header_and_event_lines:
  fixes s :: "('f::zero, 'e) DetectorState"
  assumes "log_enabled s"
  shows "(log_opens env \<longrightarrow>
            (\<exists>s'. open_log env s = Inr s'
               \<and> log_file s'
                   = Some [\<lparr>fmt = ''# Beat Detection Log - {:%F %T}'',
                            fmt_args = [ArgTime (utc_current_time env)]\<rparr>,
                           \<lparr>fmt = ''# Timestamp,BPM,Onset,Pitch(Hz),ProcessTime(ms)'',
                            fmt_args = []\<rparr>]))
         \<and> (log_opens env \<and> main_loop_new_ok env \<and> tempo_new_ok env
             \<and> input_vector_new_ok env \<and> output_vector_new_ok env \<and> onset_new_ok env
             \<and> (pitch_enabled s \<longrightarrow> pitch_new_ok env \<and> pitch_buffer_new_ok env)
             \<and> stream_new_ok env \<and> stream_connect_ok env \<longrightarrow>
               initialize env s
                 = Inr (s\<lparr>log_file := Some [\<lparr>fmt = ''# Beat Detection Log - {:%F %T}'',
                             fmt_args = [ArgTime (utc_current_time env)]\<rparr>,
                                            \<lparr>fmt = ''# Timestamp,BPM,Onset,Pitch(Hz),ProcessTime(ms)'',
                             fmt_args = []\<rparr>],
                          main_loop := True, stream := True,
                          event_src := add_event_ok env\<rparr>))
         \<and> (\<not> log_opens env \<longrightarrow> initialize env s = Inl ''failed to open log file'')
         \<and> (\<forall>s'. initialize env s = Inr s' \<longrightarrow>
               log_enabled s'
               \<and> log_file s' = Some [log_title_line (utc_current_time env), log_header_line]
               \<and> count_list [log_title_line (utc_current_time env), log_header_line]
                    (log_header_line :: 'f out_line) = 1)
         \<and> (queue_ok s \<and> detected_events s \<and> log_file s = Some written \<longrightarrow>
               (\<exists>s'. drain c s = Some (queue_contents s, s')
                  \<and> log_file s'
                      = Some (written
                              @ map (\<lambda>i. \<lparr>fmt = ''{:%T}.{:03},{:.1f},{},{:.3f},'',
                                          fmt_args =
                                            [ArgTime (c (clock_reads s + i)),
                                             ArgInt (int ((c (clock_reads s + i) div 1000000)
                                                          mod 1000)),
                                             ArgFloat (if is_beat (queue_contents s ! i)
                                                       then bpm (queue_contents s ! i) else 0),
                                             ArgInt (if is_onset (queue_contents s ! i)
                                                     then 1 else 0),
                                             ArgFloat (pitch_hz (queue_contents s ! i))]\<rparr>)
                                  [0 ..< length (queue_contents s)])
                  \<and> (\<forall>written'. log_file s' = Some written' \<longrightarrow>
                        count_list written' log_header_line
                          = count_list written log_header_line)))
         \<and> (queue_ok s \<and> detected_events s \<longrightarrow>
               (\<exists>s'. process engine dequeued s = Some s' \<and> queue_ok s' \<and> detected_events s'))
         \<and> (log_opens env \<and> main_loop_new_ok env \<and> tempo_new_ok env
             \<and> input_vector_new_ok env \<and> output_vector_new_ok env \<and> onset_new_ok env
             \<and> (pitch_enabled s \<longrightarrow> pitch_new_ok env \<and> pitch_buffer_new_ok env)
             \<and> stream_new_ok env \<and> stream_connect_ok env
             \<and> queue_ok s \<and> ev_tail s = ev_head s \<longrightarrow>
               (\<exists>s0 s' lines. initialize env s = Inr s0 \<and> run engine c ops s0 = Some s'
                  \<and> log_file s'
                      = Some ([\<lparr>fmt = ''# Beat Detection Log - {:%F %T}'',
                             fmt_args = [ArgTime (utc_current_time env)]\<rparr>,
                               \<lparr>fmt = ''# Timestamp,BPM,Onset,Pitch(Hz),ProcessTime(ms)'',
                             fmt_args = []\<rparr>] @ lines)
                  \<and> count_list lines log_header_line = 0
                  \<and> count_list ([log_title_line (utc_current_time env), log_header_line] @ lines)
                       (log_header_line :: 'f out_line) = 1))"
proof -
  have a: "log_opens env \<longrightarrow>
            (\<exists>s'. open_log env s = Inr s'
               \<and> log_file s'
                   = Some [\<lparr>fmt = ''# Beat Detection Log - {:%F %T}'',
                            fmt_args = [ArgTime (utc_current_time env)]\<rparr>,
                           \<lparr>fmt = ''# Timestamp,BPM,Onset,Pitch(Hz),ProcessTime(ms)'',
                            fmt_args = []\<rparr>])"
    using open_log_lines [OF assms, of env]
    by (simp add: log_title_line_def log_header_line_def)
  have "log_title_line t \<noteq> (log_header_line :: 'f out_line)" for t
    by (simp add: log_title_line_def log_header_line_def)
  then have b: "\<forall>s'. initialize env s = Inr s' \<longrightarrow>
               log_enabled s'
               \<and> log_file s' = Some [log_title_line (utc_current_time env), log_header_line]
               \<and> count_list [log_title_line (utc_current_time env), log_header_line]
                    (log_header_line :: 'f out_line) = 1"
    using initialize_Inr [of env s] assms by simp
  have c: "queue_ok s \<and> detected_events s \<and> log_file s = Some written \<longrightarrow>
               (\<exists>s'. drain c s = Some (queue_contents s, s')
                  \<and> log_file s'
                      = Some (written
                              @ map (\<lambda>i. \<lparr>fmt = ''{:%T}.{:03},{:.1f},{},{:.3f},'',
                                          fmt_args =
                                            [ArgTime (c (clock_reads s + i)),
                                             ArgInt (int ((c (clock_reads s + i) div 1000000)
                                                          mod 1000)),
                                             ArgFloat (if is_beat (queue_contents s ! i)
                                                       then bpm (queue_contents s ! i) else 0),
                                             ArgInt (if is_onset (queue_contents s ! i)
                                                     then 1 else 0),
                                             ArgFloat (pitch_hz (queue_contents s ! i))]\<rparr>)
                                  [0 ..< length (queue_contents s)])
                  \<and> (\<forall>written'. log_file s' = Some written' \<longrightarrow>
                        count_list written' log_header_line
                          = count_list written log_header_line))"
  proof (intro impI, elim conjE)
    assume ok: "queue_ok s" and det: "detected_events s" and w: "log_file s = Some written"
    have all: "\<forall>event \<in> set (queue_contents s). is_beat event \<or> is_onset event"
      using det by (simp add: detected_events_def)
    have lines: "log_file (drained c s)
                   = Some (written @ log_lines c (clock_reads s) (queue_contents s))"
      by (rule drain_log(2) [OF ok assms w])
    have "drain c s = Some (queue_contents s, drained c s)"
      by (rule drain_log(1) [OF ok assms w])
    moreover have "log_file (drained c s)
                      = Some (written
                              @ map (\<lambda>i. \<lparr>fmt = ''{:%T}.{:03},{:.1f},{},{:.3f},'',
                                          fmt_args =
                                            [ArgTime (c (clock_reads s + i)),
                                             ArgInt (int ((c (clock_reads s + i) div 1000000)
                                                          mod 1000)),
                                             ArgFloat (if is_beat (queue_contents s ! i)
                                                       then bpm (queue_contents s ! i) else 0),
                                             ArgInt (if is_onset (queue_contents s ! i)
                                                     then 1 else 0),
                                             ArgFloat (pitch_hz (queue_contents s ! i))]\<rparr>)
                                  [0 ..< length (queue_contents s)])"
      unfolding lines log_lines_detected [OF all] by (simp add: log_event_line_def)
    moreover have "\<forall>written'. log_file (drained c s) = Some written' \<longrightarrow>
                        count_list written' log_header_line
                          = count_list written log_header_line"
      unfolding lines by (simp add: count_header_log_lines)
    ultimately show "\<exists>s'. drain c s = Some (queue_contents s, s')
                  \<and> log_file s'
                      = Some (written
                              @ map (\<lambda>i. \<lparr>fmt = ''{:%T}.{:03},{:.1f},{},{:.3f},'',
                                          fmt_args =
                                            [ArgTime (c (clock_reads s + i)),
                                             ArgInt (int ((c (clock_reads s + i) div 1000000)
                                                          mod 1000)),
                                             ArgFloat (if is_beat (queue_contents s ! i)
                                                       then bpm (queue_contents s ! i) else 0),
                                             ArgInt (if is_onset (queue_contents s ! i)
                                                     then 1 else 0),
                                             ArgFloat (pitch_hz (queue_contents s ! i))]\<rparr>)
                                  [0 ..< length (queue_contents s)])
                  \<and> (\<forall>written'. log_file s' = Some written' \<longrightarrow>
                        count_list written' log_header_line
                          = count_list written log_header_line)"
      by blast
  qed
  have d: "queue_ok s \<and> detected_events s \<longrightarrow>
               (\<exists>s'. process engine dequeued s = Some s' \<and> queue_ok s' \<and> detected_events s')"
    using process_total [of engine dequeued s] process_effect(2) [of engine dequeued s]
      detected_events_process [of s engine dequeued]
    by blast
  have a1: "(log_opens env \<and> main_loop_new_ok env \<and> tempo_new_ok env
             \<and> input_vector_new_ok env \<and> output_vector_new_ok env \<and> onset_new_ok env
             \<and> (pitch_enabled s \<longrightarrow> pitch_new_ok env \<and> pitch_buffer_new_ok env)
             \<and> stream_new_ok env \<and> stream_connect_ok env \<longrightarrow>
               initialize env s
                 = Inr (s\<lparr>log_file := Some [\<lparr>fmt = ''# Beat Detection Log - {:%F %T}'',
                             fmt_args = [ArgTime (utc_current_time env)]\<rparr>,
                                            \<lparr>fmt = ''# Timestamp,BPM,Onset,Pitch(Hz),ProcessTime(ms)'',
                             fmt_args = []\<rparr>],
                          main_loop := True, stream := True,
                          event_src := add_event_ok env\<rparr>))"
    using initialize_succeeds [OF assms, of env]
    by (simp add: log_title_line_def log_header_line_def)
  have a2: "(\<not> log_opens env \<longrightarrow> initialize env s = Inl ''failed to open log file'')"
    using assms by (simp add: initialize_def open_log_def)
  have e: "(log_opens env \<and> main_loop_new_ok env \<and> tempo_new_ok env
             \<and> input_vector_new_ok env \<and> output_vector_new_ok env \<and> onset_new_ok env
             \<and> (pitch_enabled s \<longrightarrow> pitch_new_ok env \<and> pitch_buffer_new_ok env)
             \<and> stream_new_ok env \<and> stream_connect_ok env
             \<and> queue_ok s \<and> ev_tail s = ev_head s \<longrightarrow>
               (\<exists>s0 s' lines. initialize env s = Inr s0 \<and> run engine c ops s0 = Some s'
                  \<and> log_file s'
                      = Some ([\<lparr>fmt = ''# Beat Detection Log - {:%F %T}'',
                             fmt_args = [ArgTime (utc_current_time env)]\<rparr>,
                               \<lparr>fmt = ''# Timestamp,BPM,Onset,Pitch(Hz),ProcessTime(ms)'',
                             fmt_args = []\<rparr>] @ lines)
                  \<and> count_list lines log_header_line = 0
                  \<and> count_list ([log_title_line (utc_current_time env), log_header_line] @ lines)
                       (log_header_line :: 'f out_line) = 1))"
  proof (intro impI, elim conjE)
    assume env: "log_opens env" "main_loop_new_ok env" "tempo_new_ok env"
      "input_vector_new_ok env" "output_vector_new_ok env" "onset_new_ok env"
      "pitch_enabled s \<longrightarrow> pitch_new_ok env \<and> pitch_buffer_new_ok env"
      "stream_new_ok env" "stream_connect_ok env"
      and q: "queue_ok s" "ev_tail s = ev_head s"
    let ?s0 = "s\<lparr>log_file := Some [log_title_line (utc_current_time env), log_header_line],
                  main_loop := True, stream := True, event_src := add_event_ok env\<rparr>"
    have i: "initialize env s = Inr ?s0"
      by (rule initialize_succeeds [OF assms env])
    obtain s' lines where r: "run engine c ops ?s0 = Some s'"
      "log_file s' = Some ([log_title_line (utc_current_time env), log_header_line] @ lines)"
      "count_list lines log_header_line = 0"
      using log_after_initialize_and_run [OF q assms, where engine = engine and c = c
          and ops = ops and t = "utc_current_time env" and e = "add_event_ok env"]
      by blast
    have "count_list ([log_title_line (utc_current_time env), log_header_line] @ lines)
            (log_header_line :: 'f out_line) = 1"
      using r(3) by (simp add: log_title_line_def log_header_line_def)
    then show "\<exists>s0 s' lines. initialize env s = Inr s0 \<and> run engine c ops s0 = Some s'
                  \<and> log_file s'
                      = Some ([\<lparr>fmt = ''# Beat Detection Log - {:%F %T}'',
                             fmt_args = [ArgTime (utc_current_time env)]\<rparr>,
                               \<lparr>fmt = ''# Timestamp,BPM,Onset,Pitch(Hz),ProcessTime(ms)'',
                             fmt_args = []\<rparr>] @ lines)
                  \<and> count_list lines log_header_line = 0
                  \<and> count_list ([log_title_line (utc_current_time env), log_header_line] @ lines)
                       (log_header_line :: 'f out_line) = 1"
      using i r by (auto simp add: log_title_line_def log_header_line_def)
  qed
  show ?thesis by (intro conjI a a1 a2 b c d e)
qed

theorem log_header_and_event_lines_witness:
  "log_enabled recording_detector
   \<and> initialize good_env recording_detector = Inr connected_detector
   \<and> initialize (good_env\<lparr>log_opens := False\<rparr>) recording_detector
       = Inl ''failed to open log file''
   \<and> log_file connected_detector
       = Some [\<lparr>fmt = ''# Beat Detection Log - {:%F %T}'', fmt_args = [ArgTime 0]\<rparr>,
               \<lparr>fmt = ''# Timestamp,BPM,Onset,Pitch(Hz),ProcessTime(ms)'', fmt_args = []\<rparr>]
   \<and> map_option (\<lambda>s. map_option (\<lambda>w. count_list w log_header_line) (log_file s))
        (run recording_engine id [OpProcess None, OpDrain, OpStop] connected_detector)
       = Some (Some 1)
   \<and> log_enabled (spsc_push (numbered_event 120) connected_detector)
   \<and> queue_ok (spsc_push (numbered_event 120) connected_detector)
   \<and> is_beat (numbered_event 120)
   \<and> queue_contents (spsc_push (numbered_event 120) connected_detector)
       = [numbered_event 120]
   \<and> log_file (spsc_push (numbered_event 120) connected_detector)
       = Some [log_title_line 0, log_header_line]
   \<and> log_opens good_env
   \<and> map_sum id log_file (open_log good_env connected_detector)
       = Inr (Some [\<lparr>fmt = ''# Beat Detection Log - {:%F %T}'', fmt_args = [ArgTime 0]\<rparr>,
                    \<lparr>fmt = ''# Timestamp,BPM,Onset,Pitch(Hz),ProcessTime(ms)'',
                     fmt_args = []\<rparr>])
   \<and> map_option (\<lambda>r. log_file (snd r))
        (drain ((+) 1234567890) (spsc_push (numbered_event 120) connected_detector))
       = Some (Some [log_title_line 0, log_header_line,
                     \<lparr>fmt = ''{:%T}.{:03},{:.1f},{},{:.3f},'',
                      fmt_args = [ArgTime 1234567890, ArgInt 234, ArgFloat 120, ArgInt 0,
                                  ArgFloat 0]\<rparr>])"
proof -
  let ?s = "spsc_push (numbered_event 120) connected_detector"
  let ?ops = "[OpProcess None, OpDrain, OpStop] :: real run_op list"
  note ok0 = connected_detector_fields(1)
  have le0: "log_enabled connected_detector"
    by (simp add: connected_detector_def recording_detector_def DetectorState_ctor_def)
  have ler: "log_enabled recording_detector" "\<not> pitch_enabled recording_detector"
    "queue_ok recording_detector" "ev_tail recording_detector = ev_head recording_detector"
    by (simp_all add: recording_detector_def DetectorState_ctor_def queue_ok_def kEventCap_def)
  have genv: "log_opens good_env" "main_loop_new_ok good_env" "tempo_new_ok good_env"
    "input_vector_new_ok good_env" "output_vector_new_ok good_env" "onset_new_ok good_env"
    "stream_new_ok good_env" "stream_connect_ok good_env" "add_event_ok good_env"
    "utc_current_time good_env = 0"
    by (simp_all add: good_env_def)
  have cd: "recording_detector
              \<lparr>log_file := Some [\<lparr>fmt = ''# Beat Detection Log - {:%F %T}'',
                                  fmt_args = [ArgTime 0]\<rparr>,
                                 \<lparr>fmt = ''# Timestamp,BPM,Onset,Pitch(Hz),ProcessTime(ms)'',
                                  fmt_args = []\<rparr>],
               main_loop := True, stream := True, event_src := True\<rparr> = connected_detector"
    by (simp add: connected_detector_def recording_detector_def DetectorState_ctor_def
          log_title_line_def log_header_line_def)
  note R = log_header_and_event_lines [OF ler(1), where env = good_env and written = "[]"
      and c = id and engine = recording_engine and dequeued = None and ops = ?ops]
  have "initialize good_env recording_detector
          = Inr (recording_detector
                   \<lparr>log_file := Some [\<lparr>fmt = ''# Beat Detection Log - {:%F %T}'',
                                       fmt_args = [ArgTime (utc_current_time good_env)]\<rparr>,
                                      \<lparr>fmt = ''# Timestamp,BPM,Onset,Pitch(Hz),ProcessTime(ms)'',
                                       fmt_args = []\<rparr>],
                    main_loop := True, stream := True,
                    event_src := add_event_ok good_env\<rparr>)"
    using R genv ler(2) by blast
  then have i1: "initialize good_env recording_detector = Inr connected_detector"
    using genv(9,10) cd by simp
  have nl: "\<not> log_opens (good_env\<lparr>log_opens := False\<rparr>)" by simp
  have i2: "initialize (good_env\<lparr>log_opens := False\<rparr>) recording_detector
              = Inl ''failed to open log file''"
    using log_header_and_event_lines [OF ler(1), where env = "good_env\<lparr>log_opens := False\<rparr>"
        and written = "[]" and c = id and engine = recording_engine and dequeued = None
        and ops = "[]"] nl
    by blast
  have lf0: "log_file connected_detector
       = Some [\<lparr>fmt = ''# Beat Detection Log - {:%F %T}'', fmt_args = [ArgTime 0]\<rparr>,
               \<lparr>fmt = ''# Timestamp,BPM,Onset,Pitch(Hz),ProcessTime(ms)'', fmt_args = []\<rparr>]"
    by (simp add: connected_detector_def log_title_line_def log_header_line_def)
  have "\<exists>s0 s' lines. initialize good_env recording_detector = Inr s0
          \<and> run recording_engine id ?ops s0 = Some s'
          \<and> log_file s'
              = Some ([\<lparr>fmt = ''# Beat Detection Log - {:%F %T}'',
                        fmt_args = [ArgTime (utc_current_time good_env)]\<rparr>,
                       \<lparr>fmt = ''# Timestamp,BPM,Onset,Pitch(Hz),ProcessTime(ms)'',
                        fmt_args = []\<rparr>] @ lines)
          \<and> count_list lines log_header_line = 0
          \<and> count_list ([log_title_line (utc_current_time good_env), log_header_line] @ lines)
               (log_header_line :: real out_line) = 1"
    using R genv ler(2,3,4) by blast
  then obtain s' lines where run1: "run recording_engine id ?ops connected_detector = Some s'"
    "log_file s' = Some ([log_title_line 0, log_header_line] @ lines)"
    "count_list ([log_title_line 0, log_header_line] @ lines) (log_header_line :: real out_line)
       = 1"
    unfolding i1 genv(10) by (auto simp add: log_title_line_def log_header_line_def)
  have w0: "map_option (\<lambda>s. map_option (\<lambda>w. count_list w log_header_line) (log_file s))
        (run recording_engine id ?ops connected_detector) = Some (Some 1)"
    unfolding run1(1) using run1(2,3) by simp
  have ok: "queue_ok ?s" using ok0 by (rule queue_ok_spsc_push)
  have empty: "queue_contents connected_detector = []"
    by (simp add: queue_contents_def queue_size_def connected_detector_fields)
  have contents: "queue_contents ?s = [numbered_event 120]"
    using queue_contents_push [OF ok0, of "numbered_event 120"]
    by (simp add: empty queue_size_def connected_detector_fields kEventCap_def)
  have fields: "log_enabled ?s" "log_file ?s = Some [log_title_line 0, log_header_line]"
    "clock_reads ?s = 0" "\<not> pitch_enabled ?s"
    by (simp_all add: spsc_push_def Let_def connected_detector_def recording_detector_def
          DetectorState_ctor_def)
  have det: "detected_events ?s"
    unfolding detected_events_def contents
    using fields(4) by (simp add: numbered_event_def)
  have opens: "log_opens good_env" by (simp add: good_env_def)
  note T0 = log_header_and_event_lines [OF le0, where env = good_env and written = "[]"
      and c = id and engine = recording_engine and dequeued = None and ops = "[]"]
  have "\<exists>s'. open_log good_env connected_detector = Inr s'
          \<and> log_file s'
              = Some [\<lparr>fmt = ''# Beat Detection Log - {:%F %T}'',
                       fmt_args = [ArgTime (utc_current_time good_env)]\<rparr>,
                      \<lparr>fmt = ''# Timestamp,BPM,Onset,Pitch(Hz),ProcessTime(ms)'',
                       fmt_args = []\<rparr>]"
    using T0 opens by blast
  then have w1: "map_sum id log_file (open_log good_env connected_detector)
       = Inr (Some [\<lparr>fmt = ''# Beat Detection Log - {:%F %T}'', fmt_args = [ArgTime 0]\<rparr>,
                    \<lparr>fmt = ''# Timestamp,BPM,Onset,Pitch(Hz),ProcessTime(ms)'',
                     fmt_args = []\<rparr>])"
    by (auto simp add: good_env_def)
  note T = log_header_and_event_lines [OF fields(1), where env = good_env
      and written = "[log_title_line 0, log_header_line]" and c = "(+) 1234567890"
      and engine = recording_engine and dequeued = None and ops = "[]"]
  have "\<exists>s'. drain ((+) 1234567890) ?s = Some (queue_contents ?s, s')
          \<and> log_file s'
              = Some ([log_title_line 0, log_header_line]
                      @ map (\<lambda>i. \<lparr>fmt = ''{:%T}.{:03},{:.1f},{},{:.3f},'',
                                  fmt_args =
                                    [ArgTime (1234567890 + (clock_reads ?s + i)),
                                     ArgInt (int (((1234567890 + (clock_reads ?s + i))
                                                   div 1000000) mod 1000)),
                                     ArgFloat (if is_beat (queue_contents ?s ! i)
                                               then bpm (queue_contents ?s ! i) else 0),
                                     ArgInt (if is_onset (queue_contents ?s ! i)
                                             then 1 else 0),
                                     ArgFloat (pitch_hz (queue_contents ?s ! i))]\<rparr>)
                          [0 ..< length (queue_contents ?s)])"
    using T ok det fields(2) by blast
  then have w2: "map_option (\<lambda>r. log_file (snd r)) (drain ((+) 1234567890) ?s)
       = Some (Some [log_title_line 0, log_header_line,
                     \<lparr>fmt = ''{:%T}.{:03},{:.1f},{},{:.3f},'',
                      fmt_args = [ArgTime 1234567890, ArgInt 234, ArgFloat 120, ArgInt 0,
                                  ArgFloat 0]\<rparr>])"
    unfolding contents fields(3)
    by (auto simp add: numbered_event_def)
  have beat: "is_beat (numbered_event 120)" by (simp add: numbered_event_def)
  show ?thesis
    by (intro conjI ler(1) i1 i2 lf0 w0 fields(1) ok beat contents fields(2) opens w1 w2)
qed

section \<open>Command line and exit code\<close>

lemma decimal_from_simps:
  "decimal_from acc [] = acc"
  "decimal_from acc (c # cs) = decimal_from (acc * 10 + ((of_char c :: nat) - 48)) cs"
  by (simp_all add: decimal_from_def)

lemma decimal_from_mono: "acc \<le> decimal_from acc s"
proof (induction s arbitrary: acc)
  case Nil
  then show ?case by (simp add: decimal_from_simps)
next
  case (Cons c cs)
  have "acc \<le> acc * 10 + ((of_char c :: nat) - 48)" by simp
  also have "\<dots> \<le> decimal_from (acc * 10 + ((of_char c :: nat) - 48)) cs" by (rule Cons.IH)
  finally show ?case by (simp add: decimal_from_simps)
qed

lemma overflow_check:
  fixes acc d :: nat
  assumes "d \<le> 9"
  shows "(acc > max_before_multiply \<or> (acc = max_before_multiply \<and> d > max_last_digit))
           = (2 ^ 32 \<le> acc * 10 + d)"
  using assms unfolding max_before_multiply_def max_last_digit_def by auto

lemma parseU32_loop_digits:
  assumes "\<forall>c \<in> set s. isdigit c" "acc < 2 ^ 32"
  shows "parseU32_loop s acc
           = (if decimal_from acc s < 2 ^ 32 then (decimal_from acc s, None)
              else (0, Some ''nondigit''))"
  using assms
proof (induction s arbitrary: acc)
  case Nil
  then show ?case by (simp add: decimal_from_simps)
next
  case (Cons c cs)
  let ?d = "(of_char c :: nat) - 48"
  have dig: "isdigit c" and rest: "\<forall>c \<in> set cs. isdigit c" using Cons.prems by simp_all
  have d9: "?d \<le> 9" using dig unfolding isdigit_def by arith
  show ?case
  proof (cases "2 ^ 32 \<le> acc * 10 + ?d")
    case True
    have "acc * 10 + ?d \<le> decimal_from (acc * 10 + ?d) cs" by (rule decimal_from_mono)
    then have "\<not> decimal_from acc (c # cs) < 2 ^ 32"
      using True by (simp add: decimal_from_simps)
    then show ?thesis
      using True dig overflow_check [OF d9, of acc] by (auto simp add: Let_def)
  next
    case False
    then have small: "acc * 10 + ?d < 2 ^ 32" by simp
    then have "(acc * 10 + ?d) mod 2 ^ 32 = acc * 10 + ?d" by simp
    then have "parseU32_loop (c # cs) acc = parseU32_loop cs (acc * 10 + ?d)"
      using False dig overflow_check [OF d9, of acc] by (auto simp add: Let_def)
    then show ?thesis
      using Cons.IH [OF rest small] by (simp add: decimal_from_simps)
  qed
qed

lemma parseU32_loop_nondigit:
  assumes "\<not> (\<forall>c \<in> set s. isdigit c)"
  shows "parseU32_loop s acc = (0, Some ''nondigit'')"
  using assms
proof (induction s arbitrary: acc)
  case Nil
  then show ?case by simp
next
  case (Cons c cs)
  show ?case
  proof (cases "isdigit c")
    case False
    then show ?thesis by simp
  next
    case True
    then have "\<not> (\<forall>c \<in> set cs. isdigit c)" using Cons.prems by simp
    then have "parseU32_loop cs a = (0, Some ''nondigit'')" for a by (rule Cons.IH)
    then show ?thesis using True by (simp add: Let_def)
  qed
qed

lemma parseU32_spec:
  "parseU32 arg
     = (if numeric arg \<and> decimal arg < 2 ^ 32 then (decimal arg, None)
        else (0, Some (if arg = [] then ''empty'' else ''nondigit'')))"
proof (cases "arg = []")
  case True
  then show ?thesis by (simp add: parseU32_def numeric_def)
next
  case ne: False
  show ?thesis
  proof (cases "\<forall>c \<in> set arg. isdigit c")
    case True
    then show ?thesis
      using ne parseU32_loop_digits [OF True, of 0]
      by (simp add: parseU32_def numeric_def decimal_def)
  next
    case False
    then show ?thesis
      using ne parseU32_loop_nondigit [OF False, of 0]
      by (simp add: parseU32_def numeric_def)
  qed
qed

lemma positional_not_flag:
  assumes "positional arg"
  shows "arg \<noteq> ''--help''" "arg \<noteq> ''-h''" "arg \<noteq> []" "hd arg \<noteq> CHR ''-''"
  using assms by (auto simp add: positional_def)

lemma parseArgs_loop_positional:
  assumes "positional arg"
  shows "parseArgs_loop (arg # rest) options saw_positional
           = (if saw_positional
              then Inl \<lparr>kind = Invalid,
                        message = ''Too many positional arguments (only buffer_size is allowed)/''\<rparr>
              else if \<not> (numeric arg \<and> decimal arg < 2 ^ 32)
              then Inl \<lparr>kind = Invalid,
                        message = ''buffer_size must be a base-10 unsigned integer''\<rparr>
              else if decimal arg < 64 \<or> 8192 < decimal arg
              then Inl \<lparr>kind = Invalid, message = ''buffer_size out of range [64, 8192]''\<rparr>
              else parseArgs_loop rest (options\<lparr>buffer_size_opt := decimal arg\<rparr>) True)"
  using positional_not_flag [OF assms]
  by (simp add: parseU32_spec kMinBufferSize_def kMaxBufferSize_def)

lemma parseArgs_loop_flag:
  assumes "\<not> positional arg"
  shows "parseArgs_loop (arg # rest) options saw_positional
           = (if help_flag arg then Inl \<lparr>kind = Help, message = []\<rparr>
              else if arg = ''--no-log''
              then parseArgs_loop rest (options\<lparr>logging := False\<rparr>) saw_positional
              else if arg = ''--no-stats''
              then parseArgs_loop rest (options\<lparr>stats := False\<rparr>) saw_positional
              else if arg = ''--pitch''
              then parseArgs_loop rest (options\<lparr>pitch := True\<rparr>) saw_positional
              else if arg = ''--no-visual''
              then parseArgs_loop rest (options\<lparr>visual := False\<rparr>) saw_positional
              else Inl \<lparr>kind = Invalid,
                        message = ''Unknown option '' @ [CHR 0x27] @ arg @ [CHR 0x27]\<rparr>)"
proof -
  have np: "\<not> (arg \<noteq> [] \<and> hd arg \<noteq> CHR ''-'')"
    using assms by (simp add: positional_def)
  show ?thesis
    unfolding parseArgs_loop.simps(2) help_flag_def
    using np by (simp only: if_False)
qed

declare parseArgs_loop.simps(2) [simp del]

text \<open>
  One argument either ends the parse, with a help request or an error, or hands the
  rest of the arguments on with new options.
\<close>

lemma parseArgs_loop_step:
  "parseArgs_loop (arg # rest) options saw
     = Inl \<lparr>kind = Help, message = []\<rparr> \<and> help_flag arg
   \<or> (\<exists>msg. parseArgs_loop (arg # rest) options saw = Inl \<lparr>kind = Invalid, message = msg\<rparr>)
       \<and> \<not> help_flag arg
   \<or> (\<exists>options' saw'.
         (\<forall>rest'. parseArgs_loop (arg # rest') options saw = parseArgs_loop rest' options' saw')
         \<and> \<not> help_flag arg
         \<and> (positional arg \<longrightarrow> valid_size arg \<and> buffer_size_opt options' = decimal arg)
         \<and> (\<not> positional arg \<longrightarrow> buffer_size_opt options' = buffer_size_opt options))"
proof (cases "positional arg")
  case True
  have nh: "\<not> help_flag arg"
    using positional_not_flag [OF True] by (simp add: help_flag_def)
  show ?thesis
  proof (cases "\<not> saw \<and> numeric arg \<and> decimal arg < 2 ^ 32
                 \<and> \<not> (decimal arg < 64 \<or> 8192 < decimal arg)")
    case ok: True
    then have "\<forall>rest'. parseArgs_loop (arg # rest') options saw
                 = parseArgs_loop rest' (options\<lparr>buffer_size_opt := decimal arg\<rparr>) True"
      by (simp add: parseArgs_loop_positional [OF True])
    moreover have "valid_size arg" using ok by (simp add: valid_size_def)
    ultimately have "\<exists>options' saw'.
            (\<forall>rest'. parseArgs_loop (arg # rest') options saw
                        = parseArgs_loop rest' options' saw')
            \<and> \<not> help_flag arg
            \<and> (positional arg \<longrightarrow> valid_size arg \<and> buffer_size_opt options' = decimal arg)
            \<and> (\<not> positional arg \<longrightarrow> buffer_size_opt options' = buffer_size_opt options)"
      using nh True
      by (intro exI [of _ "options\<lparr>buffer_size_opt := decimal arg\<rparr>"] exI [of _ True]) simp
    then show ?thesis by blast
  next
    case False
    then have "\<exists>msg. parseArgs_loop (arg # rest) options saw
                 = Inl \<lparr>kind = Invalid, message = msg\<rparr>"
      unfolding parseArgs_loop_positional [OF True] by auto
    then show ?thesis using nh by blast
  qed
next
  case False
  note flag = parseArgs_loop_flag [OF False]
  have on: ?thesis
    if nh: "\<not> help_flag arg"
      and go: "\<forall>rest'. parseArgs_loop (arg # rest') options saw = parseArgs_loop rest' options' saw"
      and same: "buffer_size_opt options' = buffer_size_opt options" for options'
  proof -
    have "\<exists>options' saw'.
            (\<forall>rest'. parseArgs_loop (arg # rest') options saw
                        = parseArgs_loop rest' options' saw')
            \<and> \<not> help_flag arg
            \<and> (positional arg \<longrightarrow> valid_size arg \<and> buffer_size_opt options' = decimal arg)
            \<and> (\<not> positional arg \<longrightarrow> buffer_size_opt options' = buffer_size_opt options)"
      using nh go same False by blast
    then show ?thesis by blast
  qed
  show ?thesis
  proof (cases "help_flag arg")
    case True
    then show ?thesis unfolding flag by simp
  next
    case nh: False
    consider (log) "arg = ''--no-log''" | (stats) "arg = ''--no-stats''"
      | (pitch) "arg = ''--pitch''" | (visual) "arg = ''--no-visual''"
      | (unknown) "arg \<noteq> ''--no-log''" "arg \<noteq> ''--no-stats''" "arg \<noteq> ''--pitch''"
          "arg \<noteq> ''--no-visual''"
      by blast
    then show ?thesis
    proof cases
      case log
      have go: "\<forall>rest'. parseArgs_loop (arg # rest') options saw
                      = parseArgs_loop rest' (options\<lparr>logging := False\<rparr>) saw"
        unfolding flag using nh log by simp
      show ?thesis by (rule on [OF nh go]) simp
    next
      case stats
      have go: "\<forall>rest'. parseArgs_loop (arg # rest') options saw
                      = parseArgs_loop rest' (options\<lparr>stats := False\<rparr>) saw"
        unfolding flag using nh stats by simp
      show ?thesis by (rule on [OF nh go]) simp
    next
      case pitch
      have go: "\<forall>rest'. parseArgs_loop (arg # rest') options saw
                      = parseArgs_loop rest' (options\<lparr>pitch := True\<rparr>) saw"
        unfolding flag using nh pitch by simp
      show ?thesis by (rule on [OF nh go]) simp
    next
      case visual
      have go: "\<forall>rest'. parseArgs_loop (arg # rest') options saw
                      = parseArgs_loop rest' (options\<lparr>visual := False\<rparr>) saw"
        unfolding flag using nh visual by simp
      show ?thesis by (rule on [OF nh go]) simp
    next
      case unknown
      then have "\<exists>msg. parseArgs_loop (arg # rest) options saw
                   = Inl \<lparr>kind = Invalid, message = msg\<rparr>"
        unfolding flag using nh by simp
      then show ?thesis using nh by blast
    qed
  qed
qed

lemma parseArgs_loop_range:
  assumes "parseArgs_loop args options saw = Inr accepted"
    and "64 \<le> buffer_size_opt options \<and> buffer_size_opt options \<le> 8192"
  shows "64 \<le> buffer_size_opt accepted \<and> buffer_size_opt accepted \<le> 8192"
  using assms
proof (induction args arbitrary: options saw)
  case Nil
  then show ?case by simp
next
  case (Cons arg rest)
  have "\<exists>options' saw'.
          parseArgs_loop (arg # rest) options saw = parseArgs_loop rest options' saw'
          \<and> (positional arg \<longrightarrow> valid_size arg \<and> buffer_size_opt options' = decimal arg)
          \<and> (\<not> positional arg \<longrightarrow> buffer_size_opt options' = buffer_size_opt options)"
  proof -
    have "parseArgs_loop (arg # rest) options saw \<noteq> Inl \<lparr>kind = Help, message = []\<rparr>"
      and "\<And>msg. parseArgs_loop (arg # rest) options saw \<noteq> Inl \<lparr>kind = Invalid, message = msg\<rparr>"
      using Cons.prems(1) by simp_all
    then obtain options' saw' where
      "\<forall>rest'. parseArgs_loop (arg # rest') options saw = parseArgs_loop rest' options' saw'"
      "positional arg \<longrightarrow> valid_size arg \<and> buffer_size_opt options' = decimal arg"
      "\<not> positional arg \<longrightarrow> buffer_size_opt options' = buffer_size_opt options"
      using parseArgs_loop_step [of arg rest options saw] by blast
    then show ?thesis by blast
  qed
  then obtain options' saw' where
    step: "parseArgs_loop (arg # rest) options saw = parseArgs_loop rest options' saw'"
    and pos: "positional arg \<longrightarrow> valid_size arg \<and> buffer_size_opt options' = decimal arg"
    and flag: "\<not> positional arg \<longrightarrow> buffer_size_opt options' = buffer_size_opt options"
    by blast
  have "64 \<le> buffer_size_opt options' \<and> buffer_size_opt options' \<le> 8192"
    using pos flag Cons.prems(2) by (cases "positional arg") (auto simp add: valid_size_def)
  moreover have "parseArgs_loop rest options' saw' = Inr accepted"
    using step Cons.prems(1) by simp
  ultimately show ?case by (rule Cons.IH [rotated])
qed

lemma parseArgs_loop_bad_positional:
  assumes "\<forall>a \<in> set pre. \<not> help_flag a" "positional arg" "\<not> valid_size arg"
  shows "\<exists>msg. parseArgs_loop (pre @ arg # post) options saw
                = Inl \<lparr>kind = Invalid, message = msg\<rparr>"
  using assms(1)
proof (induction pre arbitrary: options saw)
  case Nil
  have "\<not> help_flag arg"
    using positional_not_flag [OF assms(2)] by (simp add: help_flag_def)
  then show ?case
    using parseArgs_loop_step [of arg post options saw] assms(2,3) by auto
next
  case (Cons a pre)
  have nh: "\<not> help_flag a" and rest: "\<forall>a \<in> set pre. \<not> help_flag a"
    using Cons.prems by simp_all
  from parseArgs_loop_step [of a "pre @ arg # post" options saw] nh
  consider (bad) msg where "parseArgs_loop (a # pre @ arg # post) options saw
                              = Inl \<lparr>kind = Invalid, message = msg\<rparr>"
    | (on) options' saw' where "parseArgs_loop (a # pre @ arg # post) options saw
                                  = parseArgs_loop (pre @ arg # post) options' saw'"
    by auto
  then show ?case
  proof cases
    case bad
    then show ?thesis by auto
  next
    case on
    then show ?thesis using Cons.IH [OF rest, of options' saw'] by simp
  qed
qed

lemma parseArgs_loop_help:
  assumes "parseArgs_loop pre options saw = Inr accepted" "help_flag h"
  shows "parseArgs_loop (pre @ h # post) options saw = Inl \<lparr>kind = Help, message = []\<rparr>"
  using assms(1)
proof (induction pre arbitrary: options saw)
  case Nil
  have "\<not> positional h" using assms(2) by (auto simp add: help_flag_def positional_def)
  then show ?case using assms(2) by (simp add: parseArgs_loop_flag)
next
  case (Cons a pre)
  from parseArgs_loop_step [of a pre options saw] Cons.prems
  obtain options' saw' where
    step: "\<forall>rest'. parseArgs_loop (a # rest') options saw = parseArgs_loop rest' options' saw'"
    by auto
  have "parseArgs_loop pre options' saw' = Inr accepted"
    using step Cons.prems by simp
  then have "parseArgs_loop (pre @ h # post) options' saw' = Inl \<lparr>kind = Help, message = []\<rparr>"
    by (rule Cons.IH)
  then show ?case using step by simp
qed

lemma parseArgs_single_positional:
  assumes "positional arg"
  shows "parseArgs [prog, arg]
           = (if valid_size arg then Inr (default_Options\<lparr>buffer_size_opt := decimal arg\<rparr>)
              else Inl \<lparr>kind = Invalid,
                        message = (if numeric arg \<and> decimal arg < 2 ^ 32
                                   then ''buffer_size out of range [64, 8192]''
                                   else ''buffer_size must be a base-10 unsigned integer'')\<rparr>)"
proof -
  have "parseArgs [prog, arg] = parseArgs_loop [arg] default_Options False"
    by (simp add: parseArgs_def)
  then show ?thesis
    unfolding parseArgs_loop_positional [OF assms]
    by (auto simp add: valid_size_def)
qed

lemma main_exit:
  fixes engine :: "('f::zero, 'e) analysis_engine"
  shows "parseArgs args = Inl err \<Longrightarrow>
     main args env engine aubio0 c ops run_raises = Some (if kind err = Help then 0 else 1)"
    and "parseArgs args = Inr options \<Longrightarrow>
     initialize env (DetectorState_ctor (buffer_size_opt options) (logging options)
                       (stats options) (pitch options) (visual options) False aubio0
                     :: ('f, 'e) DetectorState) = Inl msg
     \<Longrightarrow> main args env engine aubio0 c ops run_raises = Some 1"
  by (simp_all add: main_def Let_def)

lemma flag_not_positional:
  "\<not> positional ''--no-log''" "\<not> positional ''--no-stats''" "\<not> positional ''--pitch''"
  "\<not> positional ''--no-visual''" "\<not> positional ''--help''" "\<not> positional ''-h''"
  by (simp_all add: positional_def)

text \<open>
  What an accepted command line is, and the options it gives: the first positional
  argument is the buffer size, each flag sets its option, whatever the order.
\<close>

lemma parseArgs_loop_accepted:
  assumes "parseArgs_loop args options saw = Inr accepted"
  shows "buffer_size_opt accepted
           = (case filter positional args of
                [] \<Rightarrow> buffer_size_opt options
              | size_arg # others \<Rightarrow> decimal size_arg)
         \<and> logging accepted = (logging options \<and> ''--no-log'' \<notin> set args)
         \<and> stats accepted = (stats options \<and> ''--no-stats'' \<notin> set args)
         \<and> pitch accepted = (pitch options \<or> ''--pitch'' \<in> set args)
         \<and> visual accepted = (visual options \<and> ''--no-visual'' \<notin> set args)
         \<and> (\<forall>a \<in> set args. a = ''--no-log'' \<or> a = ''--no-stats'' \<or> a = ''--pitch''
               \<or> a = ''--no-visual'' \<or> (positional a \<and> valid_size a))
         \<and> length (filter positional args) \<le> (if saw then 0 else 1)"
  using assms
proof (induction args arbitrary: options saw)
  case Nil
  then show ?case by simp
next
  case (Cons arg rest)
  show ?case
  proof (cases "positional arg")
    case True
    note eq = parseArgs_loop_positional [OF True, of rest options saw]
    have c: "\<not> saw" "numeric arg" "decimal arg < 2 ^ 32" "64 \<le> decimal arg"
      "decimal arg \<le> 8192"
      and r: "parseArgs_loop rest (options\<lparr>buffer_size_opt := decimal arg\<rparr>) True = Inr accepted"
      using Cons.prems unfolding eq by (simp_all split: if_splits)
    note IH = Cons.IH [OF r]
    have none: "filter positional rest = []" using IH by simp
    have nf: "arg \<noteq> ''--no-log''" "arg \<noteq> ''--no-stats''" "arg \<noteq> ''--pitch''"
      "arg \<noteq> ''--no-visual''"
      using True flag_not_positional by auto
    have v: "valid_size arg" using c by (simp add: valid_size_def)
    show ?thesis
      using IH none nf v True c(1) by simp
  next
    case False
    note eq = parseArgs_loop_flag [OF False, of rest options saw]
    consider (log) "arg = ''--no-log''"
        "parseArgs_loop rest (options\<lparr>logging := False\<rparr>) saw = Inr accepted"
      | (stats) "arg = ''--no-stats''"
        "parseArgs_loop rest (options\<lparr>stats := False\<rparr>) saw = Inr accepted"
      | (pitch) "arg = ''--pitch''"
        "parseArgs_loop rest (options\<lparr>pitch := True\<rparr>) saw = Inr accepted"
      | (visual) "arg = ''--no-visual''"
        "parseArgs_loop rest (options\<lparr>visual := False\<rparr>) saw = Inr accepted"
      using Cons.prems unfolding eq by (auto split: if_splits)
    then show ?thesis
    proof cases
      case log
      show ?thesis
        using Cons.IH [OF log(2)] unfolding log(1)
        by (simp add: flag_not_positional cong: list.case_cong)
    next
      case stats
      show ?thesis
        using Cons.IH [OF stats(2)] unfolding stats(1)
        by (simp add: flag_not_positional cong: list.case_cong)
    next
      case pitch
      show ?thesis
        using Cons.IH [OF pitch(2)] unfolding pitch(1)
        by (simp add: flag_not_positional cong: list.case_cong)
    next
      case visual
      show ?thesis
        using Cons.IH [OF visual(2)] unfolding visual(1)
        by (simp add: flag_not_positional cong: list.case_cong)
    qed
  qed
qed

lemma parseArgs_loop_accepts:
  assumes "\<forall>a \<in> set args. a = ''--no-log'' \<or> a = ''--no-stats'' \<or> a = ''--pitch''
             \<or> a = ''--no-visual'' \<or> (positional a \<and> valid_size a)"
    and "length (filter positional args) \<le> (if saw then 0 else 1)"
  shows "\<exists>accepted. parseArgs_loop args options saw = Inr accepted"
  using assms
proof (induction args arbitrary: options saw)
  case Nil
  then show ?case by simp
next
  case (Cons arg rest)
  have rest: "\<forall>a \<in> set rest. a = ''--no-log'' \<or> a = ''--no-stats'' \<or> a = ''--pitch''
             \<or> a = ''--no-visual'' \<or> (positional a \<and> valid_size a)"
    using Cons.prems(1) by simp
  have this_one: "arg = ''--no-log'' \<or> arg = ''--no-stats'' \<or> arg = ''--pitch''
             \<or> arg = ''--no-visual'' \<or> (positional arg \<and> valid_size arg)"
    using Cons.prems(1) by simp
  show ?case
  proof (cases "positional arg")
    case True
    have v: "valid_size arg" using this_one True flag_not_positional by auto
    have ns: "\<not> saw" using Cons.prems(2) True by (simp split: if_splits)
    have len: "length (filter positional rest) \<le> (if True then 0 else 1)"
      using Cons.prems(2) True by (simp split: if_splits)
    have "parseArgs_loop (arg # rest) options saw
            = parseArgs_loop rest (options\<lparr>buffer_size_opt := decimal arg\<rparr>) True"
      unfolding parseArgs_loop_positional [OF True] using ns v by (simp add: valid_size_def)
    then show ?thesis using Cons.IH [OF rest len] by simp
  next
    case False
    have len: "length (filter positional rest) \<le> (if saw then 0 else 1)"
      using Cons.prems(2) False by simp
    note IH = Cons.IH [OF rest len]
    consider (log) "arg = ''--no-log''" | (stats) "arg = ''--no-stats''"
      | (pitch) "arg = ''--pitch''" | (visual) "arg = ''--no-visual''"
      using this_one False by blast
    then show ?thesis
    proof cases
      case log
      show ?thesis
        unfolding parseArgs_loop_flag [OF False] using IH by (simp add: log help_flag_def)
    next
      case stats
      show ?thesis
        unfolding parseArgs_loop_flag [OF False] using IH by (simp add: stats help_flag_def)
    next
      case pitch
      show ?thesis
        unfolding parseArgs_loop_flag [OF False] using IH by (simp add: pitch help_flag_def)
    next
      case visual
      show ?thesis
        unfolding parseArgs_loop_flag [OF False] using IH by (simp add: visual help_flag_def)
    qed
  qed
qed

lemma parseArgs_loop_help_only:
  assumes "parseArgs_loop args options saw = Inl err" "kind err = Help"
  shows "\<exists>before flag after accepted.
           args = before @ flag # after \<and> help_flag flag
           \<and> parseArgs_loop before options saw = Inr accepted"
  using assms(1)
proof (induction args arbitrary: options saw)
  case Nil
  then show ?case by simp
next
  case (Cons arg rest)
  from parseArgs_loop_step [of arg rest options saw]
  consider (helped) "help_flag arg"
    | (bad) msg where "parseArgs_loop (arg # rest) options saw
                         = Inl \<lparr>kind = Invalid, message = msg\<rparr>"
    | (on) options' saw' where
        "\<forall>rest'. parseArgs_loop (arg # rest') options saw = parseArgs_loop rest' options' saw'"
    by blast
  then show ?case
  proof cases
    case helped
    have "arg # rest = [] @ arg # rest \<and> help_flag arg
            \<and> parseArgs_loop [] options saw = Inr options"
      using helped by simp
    then show ?thesis by blast
  next
    case bad
    then have "kind err = Invalid" using Cons.prems by simp
    then show ?thesis using assms(2) by simp
  next
    case on
    then have "parseArgs_loop rest options' saw' = Inl err" using Cons.prems by simp
    then obtain before flag after accepted where
      r: "rest = before @ flag # after" "help_flag flag"
        "parseArgs_loop before options' saw' = Inr accepted"
      using Cons.IH by blast
    have "arg # rest = (arg # before) @ flag # after \<and> help_flag flag
            \<and> parseArgs_loop (arg # before) options saw = Inr accepted"
      using r on by simp
    then show ?thesis by blast
  qed
qed

lemma initialize_queue:
  assumes "initialize env s = Inr s'"
  shows "queue_ok s' = queue_ok s" "main_loop s'"
proof -
  obtain s1 where s1: "open_log env s = Inr s1"
    using assms by (cases "open_log env s") (simp_all add: initialize_def)
  have "queue_ok s1 = queue_ok s"
    using s1 by (auto simp add: open_log_def println_log_def Let_def queue_ok_def
          split: if_splits)
  moreover have "queue_ok s' = queue_ok s1 \<and> main_loop s'"
    using assms unfolding initialize_def s1
    by (auto simp add: Let_def queue_ok_def split: if_splits)
  ultimately show "queue_ok s' = queue_ok s" "main_loop s'" by simp_all
qed

lemma run_returns:
  fixes s :: "('f::zero, 'e) DetectorState"
  assumes "queue_ok s"
  shows "\<exists>s'. run engine c ops s = Some s'"
proof -
  have "queue_ok (s\<lparr>quit := False\<rparr>)" using assms by (simp add: queue_ok_def)
  then obtain s' where "run_ops engine c ops (s\<lparr>quit := False\<rparr>) = Some s'"
    using run_ops_effect [of "s\<lparr>quit := False\<rparr>" engine c ops] by blast
  then show ?thesis by (simp add: run_def)
qed

lemma main_after_initialize:
  fixes engine :: "('f::zero, 'e) analysis_engine"
  assumes "parseArgs args = Inr options"
    and "initialize env
           (DetectorState_ctor (buffer_size_opt options) (logging options)
              (stats options) (pitch options) (visual options) False aubio0
            :: ('f, 'e) DetectorState) = Inr ready"
  shows "main args env engine aubio0 c ops run_raises = Some (if run_raises then 1 else 0)"
proof -
  have "queue_ok (DetectorState_ctor (buffer_size_opt options) (logging options)
              (stats options) (pitch options) (visual options) False aubio0
            :: ('f, 'e) DetectorState)"
    by (simp add: DetectorState_ctor_def queue_ok_def kEventCap_def)
  then have "queue_ok ready" using initialize_queue(1) [OF assms(2)] by simp
  then obtain finished where "run engine c ops ready = Some finished"
    using run_returns [of ready engine c ops] by blast
  then show ?thesis using assms by (simp add: main_def Let_def)
qed

lemma main_returns:
  fixes engine :: "('f::zero, 'e) analysis_engine"
  shows "\<exists>code. main args env engine aubio0 c ops run_raises = Some code
           \<and> (code = 0 \<or> code = 1)"
proof (cases "parseArgs args")
  case (Inl err)
  show ?thesis
    using main_exit(1) [OF Inl, where env = env and engine = engine and ?aubio0.0 = aubio0
        and c = c and ops = ops and run_raises = run_raises]
    by simp
next
  case (Inr options)
  show ?thesis
  proof (cases "initialize env
           (DetectorState_ctor (buffer_size_opt options) (logging options)
              (stats options) (pitch options) (visual options) False aubio0
            :: ('f, 'e) DetectorState)")
    case (Inl msg)
    show ?thesis
      using main_exit(2) [OF Inr Inl, where engine = engine and c = c and ops = ops
          and run_raises = run_raises]
      by simp
  next
    case ready: (Inr ready)
    show ?thesis
      using main_after_initialize [OF Inr ready, where engine = engine and c = c and ops = ops
          and run_raises = run_raises]
      by simp
  qed
qed

text \<open>
  Claim C9, as the code has it. The arguments are read in order, and the first help
  option or the first error ends the parse. A command line is accepted exactly when each
  argument after the program name is one of the four flags or a string of decimal digits
  with a value from 64 to 8192, at most one of them being such a number; then the buffer
  size is that number, or 512 when there is none, whatever flags are given, and each flag
  sets its option. The parse is a help request exactly when a help option follows
  arguments that are accepted; every other failure is a configuration error. So a
  positional argument that is not a number in the range is a configuration error unless a
  help option comes before it. \<open>main\<close> always returns 0 or 1: 0 on a help request, 1 on
  a configuration error, 1 when initialisation fails, and after a successful
  initialisation 1 if an exception leaves \<open>run()\<close> and 0 otherwise.
\<close>

theorem command_line_and_exit_codes:
  fixes engine :: "('f::zero, 'e) analysis_engine"
  shows "parseArgs [] = Inr default_Options \<and> parseArgs [prog] = Inr default_Options
         \<and> buffer_size_opt default_Options = 512
         \<and> (\<forall>options. parseArgs args = Inr options \<longrightarrow>
               64 \<le> buffer_size_opt options \<and> buffer_size_opt options \<le> 8192)
         \<and> (\<forall>options. parseArgs args = Inr options \<longrightarrow>
               buffer_size_opt options
                 = (case filter positional (drop 1 args) of
                      [] \<Rightarrow> 512
                    | size_arg # others \<Rightarrow> decimal size_arg)
               \<and> logging options = (''--no-log'' \<notin> set (drop 1 args))
               \<and> stats options = (''--no-stats'' \<notin> set (drop 1 args))
               \<and> pitch options = (''--pitch'' \<in> set (drop 1 args))
               \<and> visual options = (''--no-visual'' \<notin> set (drop 1 args)))
         \<and> ((\<exists>options. parseArgs args = Inr options)
              = ((\<forall>a \<in> set (drop 1 args).
                    (a = ''--no-log'' \<or> a = ''--no-stats'' \<or> a = ''--pitch''
                     \<or> a = ''--no-visual''
                     \<or> (positional a \<and> numeric a \<and> 64 \<le> decimal a \<and> decimal a \<le> 8192)))
                 \<and> length (filter positional (drop 1 args)) \<le> 1))
         \<and> (\<forall>err. parseArgs args = Inl err \<longrightarrow>
               (kind err = Help)
                 = (\<exists>before flag after.
                      drop 1 args = before @ flag # after \<and> help_flag flag
                      \<and> (\<forall>a \<in> set before.
                            (a = ''--no-log'' \<or> a = ''--no-stats'' \<or> a = ''--pitch''
                     \<or> a = ''--no-visual''
                     \<or> (positional a \<and> numeric a \<and> 64 \<le> decimal a \<and> decimal a \<le> 8192)))
                      \<and> length (filter positional before) \<le> 1))
         \<and> (positional arg \<longrightarrow>
               parseArgs [prog, arg]
                 = (if numeric arg \<and> 64 \<le> decimal arg \<and> decimal arg \<le> 8192
                    then Inr (default_Options\<lparr>buffer_size_opt := decimal arg\<rparr>)
                    else Inl \<lparr>kind = Invalid,
                              message = (if numeric arg \<and> decimal arg < 2 ^ 32
                                         then ''buffer_size out of range [64, 8192]''
                                         else ''buffer_size must be a base-10 unsigned integer'')\<rparr>))
         \<and> (positional arg \<and> \<not> (numeric arg \<and> 64 \<le> decimal arg \<and> decimal arg \<le> 8192)
               \<and> (\<forall>a \<in> set pre. \<not> help_flag a)
             \<longrightarrow> (\<exists>msg. parseArgs (prog # pre @ arg # post)
                          = Inl \<lparr>kind = Invalid, message = msg\<rparr>))
         \<and> (help_flag h \<and> (\<exists>options. parseArgs (prog # pre) = Inr options)
             \<longrightarrow> parseArgs (prog # pre @ h # post) = Inl \<lparr>kind = Help, message = []\<rparr>)
         \<and> (\<forall>err. parseArgs args = Inl err \<longrightarrow>
               main args env engine aubio0 c ops run_raises
                 = Some (if kind err = Help then 0 else 1))
         \<and> (\<forall>options msg.
               parseArgs args = Inr options
               \<and> initialize env
                    (DetectorState_ctor (buffer_size_opt options) (logging options)
                       (stats options) (pitch options) (visual options) False aubio0
                     :: ('f, 'e) DetectorState) = Inl msg
               \<longrightarrow> main args env engine aubio0 c ops run_raises = Some 1)
         \<and> (\<forall>options ready.
               parseArgs args = Inr options
               \<and> initialize env
                    (DetectorState_ctor (buffer_size_opt options) (logging options)
                       (stats options) (pitch options) (visual options) False aubio0
                     :: ('f, 'e) DetectorState) = Inr ready
               \<longrightarrow> main args env engine aubio0 c ops run_raises
                     = Some (if run_raises then 1 else 0))
         \<and> (\<exists>code. main args env engine aubio0 c ops run_raises = Some code
               \<and> (code = 0 \<or> code = 1))"
proof -
  have a: "parseArgs [] = Inr default_Options \<and> parseArgs [prog] = Inr default_Options
         \<and> buffer_size_opt default_Options = 512"
    by (simp add: parseArgs_def default_Options_def kDefaultBufferSize_def)
  have b: "\<forall>options. parseArgs args = Inr options \<longrightarrow>
               64 \<le> buffer_size_opt options \<and> buffer_size_opt options \<le> 8192"
    using parseArgs_loop_range [of "drop 1 args" default_Options False]
    by (simp add: parseArgs_def default_Options_def kDefaultBufferSize_def)
  have c: "positional arg \<longrightarrow>
               parseArgs [prog, arg]
                 = (if numeric arg \<and> 64 \<le> decimal arg \<and> decimal arg \<le> 8192
                    then Inr (default_Options\<lparr>buffer_size_opt := decimal arg\<rparr>)
                    else Inl \<lparr>kind = Invalid,
                              message = (if numeric arg \<and> decimal arg < 2 ^ 32
                                         then ''buffer_size out of range [64, 8192]''
                                         else ''buffer_size must be a base-10 unsigned integer'')\<rparr>)"
    using parseArgs_single_positional [of arg prog] by (simp add: valid_size_def)
  have d: "positional arg \<and> \<not> (numeric arg \<and> 64 \<le> decimal arg \<and> decimal arg \<le> 8192)
               \<and> (\<forall>a \<in> set pre. \<not> help_flag a)
             \<longrightarrow> (\<exists>msg. parseArgs (prog # pre @ arg # post)
                          = Inl \<lparr>kind = Invalid, message = msg\<rparr>)"
    using parseArgs_loop_bad_positional [of pre arg post default_Options False]
    by (simp add: parseArgs_def valid_size_def)
  have e: "help_flag h \<and> (\<exists>options. parseArgs (prog # pre) = Inr options)
             \<longrightarrow> parseArgs (prog # pre @ h # post) = Inl \<lparr>kind = Help, message = []\<rparr>"
    using parseArgs_loop_help [of pre default_Options False _ h post]
    by (auto simp add: parseArgs_def)
  have f: "\<forall>err. parseArgs args = Inl err \<longrightarrow>
               main args env engine aubio0 c ops run_raises
                 = Some (if kind err = Help then 0 else 1)"
    using main_exit(1) [where args = args and env = env and engine = engine
        and ?aubio0.0 = aubio0 and c = c and ops = ops and run_raises = run_raises]
    by blast
  have g: "\<forall>options msg.
               parseArgs args = Inr options
               \<and> initialize env
                    (DetectorState_ctor (buffer_size_opt options) (logging options)
                       (stats options) (pitch options) (visual options) False aubio0
                     :: ('f, 'e) DetectorState) = Inl msg
               \<longrightarrow> main args env engine aubio0 c ops run_raises = Some 1"
    using main_exit(2) [where args = args and env = env and engine = engine
        and ?aubio0.0 = aubio0 and c = c and ops = ops and run_raises = run_raises]
    by blast
  have dflt: "buffer_size_opt default_Options = 512" "logging default_Options"
    "stats default_Options" "\<not> pitch default_Options" "visual default_Options"
    by (simp_all add: default_Options_def kDefaultBufferSize_def)
  have n1: "(\<forall>options. parseArgs args = Inr options \<longrightarrow>
               buffer_size_opt options
                 = (case filter positional (drop 1 args) of
                      [] \<Rightarrow> 512
                    | size_arg # others \<Rightarrow> decimal size_arg)
               \<and> logging options = (''--no-log'' \<notin> set (drop 1 args))
               \<and> stats options = (''--no-stats'' \<notin> set (drop 1 args))
               \<and> pitch options = (''--pitch'' \<in> set (drop 1 args))
               \<and> visual options = (''--no-visual'' \<notin> set (drop 1 args)))"
  proof (intro allI impI)
    fix options
    assume "parseArgs args = Inr options"
    then have "parseArgs_loop (drop 1 args) default_Options False = Inr options"
      by (simp add: parseArgs_def)
    from parseArgs_loop_accepted [OF this]
    show "buffer_size_opt options
                 = (case filter positional (drop 1 args) of
                      [] \<Rightarrow> 512
                    | size_arg # others \<Rightarrow> decimal size_arg)
               \<and> logging options = (''--no-log'' \<notin> set (drop 1 args))
               \<and> stats options = (''--no-stats'' \<notin> set (drop 1 args))
               \<and> pitch options = (''--pitch'' \<in> set (drop 1 args))
               \<and> visual options = (''--no-visual'' \<notin> set (drop 1 args))"
      using dflt by (simp cong: list.case_cong)
  qed
  have n2: "((\<exists>options. parseArgs args = Inr options)
              = ((\<forall>a \<in> set (drop 1 args).
                    (a = ''--no-log'' \<or> a = ''--no-stats'' \<or> a = ''--pitch''
                     \<or> a = ''--no-visual''
                     \<or> (positional a \<and> numeric a \<and> 64 \<le> decimal a \<and> decimal a \<le> 8192)))
                 \<and> length (filter positional (drop 1 args)) \<le> 1))"
  proof
    assume "\<exists>options. parseArgs args = Inr options"
    then obtain options where
      "parseArgs_loop (drop 1 args) default_Options False = Inr options"
      by (auto simp add: parseArgs_def)
    from parseArgs_loop_accepted [OF this]
    show "(\<forall>a \<in> set (drop 1 args).
                    (a = ''--no-log'' \<or> a = ''--no-stats'' \<or> a = ''--pitch''
                     \<or> a = ''--no-visual''
                     \<or> (positional a \<and> numeric a \<and> 64 \<le> decimal a \<and> decimal a \<le> 8192)))
                 \<and> length (filter positional (drop 1 args)) \<le> 1"
      by (simp add: valid_size_def)
  next
    assume ok: "(\<forall>a \<in> set (drop 1 args).
                    (a = ''--no-log'' \<or> a = ''--no-stats'' \<or> a = ''--pitch''
                     \<or> a = ''--no-visual''
                     \<or> (positional a \<and> numeric a \<and> 64 \<le> decimal a \<and> decimal a \<le> 8192)))
                 \<and> length (filter positional (drop 1 args)) \<le> 1"
    have "\<exists>accepted. parseArgs_loop (drop 1 args) default_Options False = Inr accepted"
      by (rule parseArgs_loop_accepts) (use ok in \<open>simp_all add: valid_size_def\<close>)
    then show "\<exists>options. parseArgs args = Inr options" by (simp add: parseArgs_def)
  qed
  have n3: "(\<forall>err. parseArgs args = Inl err \<longrightarrow>
               (kind err = Help)
                 = (\<exists>before flag after.
                      drop 1 args = before @ flag # after \<and> help_flag flag
                      \<and> (\<forall>a \<in> set before.
                            (a = ''--no-log'' \<or> a = ''--no-stats'' \<or> a = ''--pitch''
                     \<or> a = ''--no-visual''
                     \<or> (positional a \<and> numeric a \<and> 64 \<le> decimal a \<and> decimal a \<le> 8192)))
                      \<and> length (filter positional before) \<le> 1))"
  proof (intro allI impI)
    fix err
    assume err: "parseArgs args = Inl err"
    then have loop: "parseArgs_loop (drop 1 args) default_Options False = Inl err"
      by (simp add: parseArgs_def)
    show "(kind err = Help)
                 = (\<exists>before flag after.
                      drop 1 args = before @ flag # after \<and> help_flag flag
                      \<and> (\<forall>a \<in> set before.
                            (a = ''--no-log'' \<or> a = ''--no-stats'' \<or> a = ''--pitch''
                     \<or> a = ''--no-visual''
                     \<or> (positional a \<and> numeric a \<and> 64 \<le> decimal a \<and> decimal a \<le> 8192)))
                      \<and> length (filter positional before) \<le> 1)"
    proof
      assume "kind err = Help"
      from parseArgs_loop_help_only [OF loop this]
      show "\<exists>before flag after.
                      drop 1 args = before @ flag # after \<and> help_flag flag
                      \<and> (\<forall>a \<in> set before.
                            (a = ''--no-log'' \<or> a = ''--no-stats'' \<or> a = ''--pitch''
                     \<or> a = ''--no-visual''
                     \<or> (positional a \<and> numeric a \<and> 64 \<le> decimal a \<and> decimal a \<le> 8192)))
                      \<and> length (filter positional before) \<le> 1"
      proof (elim exE conjE)
        fix before flag after accepted
        assume r: "drop 1 args = before @ flag # after" "help_flag flag"
          "parseArgs_loop before default_Options False = Inr accepted"
        have ok: "(\<forall>a \<in> set before.
                            (a = ''--no-log'' \<or> a = ''--no-stats'' \<or> a = ''--pitch''
                     \<or> a = ''--no-visual''
                     \<or> (positional a \<and> numeric a \<and> 64 \<le> decimal a \<and> decimal a \<le> 8192)))
                      \<and> length (filter positional before) \<le> 1"
          using parseArgs_loop_accepted [OF r(3)] by (simp add: valid_size_def)
        show ?thesis
          by (intro exI [of _ before] exI [of _ flag] exI [of _ after] conjI r(1) r(2)
                ok [THEN conjunct1] ok [THEN conjunct2])
      qed
    next
      assume "\<exists>before flag after.
                      drop 1 args = before @ flag # after \<and> help_flag flag
                      \<and> (\<forall>a \<in> set before.
                            (a = ''--no-log'' \<or> a = ''--no-stats'' \<or> a = ''--pitch''
                     \<or> a = ''--no-visual''
                     \<or> (positional a \<and> numeric a \<and> 64 \<le> decimal a \<and> decimal a \<le> 8192)))
                      \<and> length (filter positional before) \<le> 1"
      then show "kind err = Help"
      proof (elim exE conjE)
        fix before flag after
        assume r: "drop 1 args = before @ flag # after" "help_flag flag"
          and ok1: "\<forall>a \<in> set before.
                            (a = ''--no-log'' \<or> a = ''--no-stats'' \<or> a = ''--pitch''
                     \<or> a = ''--no-visual''
                     \<or> (positional a \<and> numeric a \<and> 64 \<le> decimal a \<and> decimal a \<le> 8192))"
          and ok2: "length (filter positional before) \<le> 1"
        have "\<exists>accepted. parseArgs_loop before default_Options False = Inr accepted"
        proof (rule parseArgs_loop_accepts)
          show "\<forall>a \<in> set before. a = ''--no-log'' \<or> a = ''--no-stats'' \<or> a = ''--pitch''
                  \<or> a = ''--no-visual'' \<or> (positional a \<and> valid_size a)"
            using ok1 by (simp add: valid_size_def)
          show "length (filter positional before) \<le> (if False then 0 else 1)"
            using ok2 by simp
        qed
        then obtain accepted where "parseArgs_loop before default_Options False = Inr accepted"
          by (elim exE)
        from parseArgs_loop_help [OF this r(2), of after]
        have "Inl err = (Inl \<lparr>kind = Help, message = []\<rparr> :: ParseError + Options)"
          using loop unfolding r(1) by (simp only:)
        then have "err = \<lparr>kind = Help, message = []\<rparr>" by (simp only: sum.inject)
        then show "kind err = Help" by simp
      qed
    qed
  qed
  have h: "(\<forall>options ready.
               parseArgs args = Inr options
               \<and> initialize env
                    (DetectorState_ctor (buffer_size_opt options) (logging options)
                       (stats options) (pitch options) (visual options) False aubio0
                     :: ('f, 'e) DetectorState) = Inr ready
               \<longrightarrow> main args env engine aubio0 c ops run_raises
                     = Some (if run_raises then 1 else 0))"
    using main_after_initialize [where args = args and env = env and engine = engine
        and ?aubio0.0 = aubio0 and c = c and ops = ops and run_raises = run_raises]
    by blast
  have i: "(\<exists>code. main args env engine aubio0 c ops run_raises = Some code
               \<and> (code = 0 \<or> code = 1))"
    by (rule main_returns)
  show ?thesis by (intro conjI a [THEN conjunct1] a [THEN conjunct2, THEN conjunct1]
        a [THEN conjunct2, THEN conjunct2] b n1 n2 n3 c d e f g h i)
qed

theorem command_line_and_exit_codes_witness:
  "positional ''256'' \<and> positional ''9000'' \<and> positional ''12ab''
   \<and> help_flag ''-h''
   \<and> parseArgs [''beat'', ''256''] = Inr (default_Options\<lparr>buffer_size_opt := 256\<rparr>)
   \<and> parseArgs [''beat'', ''--pitch'', ''9000'', ''--help'']
       = Inl \<lparr>kind = Invalid, message = ''buffer_size out of range [64, 8192]''\<rparr>
   \<and> main [''beat'', ''--pitch'', ''9000'', ''--help''] good_env recording_engine [] id [] False
       = Some 1
   \<and> main [''beat'', ''12ab''] good_env recording_engine [] id [] False = Some 1
   \<and> main [''beat'', ''--pitch'', ''-h'', ''12ab''] good_env recording_engine [] id [] False
       = Some 0
   \<and> main [''beat''] broken_env recording_engine [] id [] False = Some 1
   \<and> parseArgs [''beat'', ''--pitch'', ''--no-log'']
       = Inr \<lparr>buffer_size_opt = 512, logging = False, stats = True, pitch = True,
              visual = True\<rparr>
   \<and> main [''beat'', ''--pitch'', ''--no-log''] good_env recording_engine [] id
        [OpProcess None, OpStop] False = Some 0
   \<and> main [''beat'', ''--pitch'', ''--no-log''] good_env recording_engine [] id
        [OpProcess None, OpStop] True = Some 1"
proof -
  have isd: "isdigit CHR ''2''" "isdigit CHR ''5''" "isdigit CHR ''6''" "isdigit CHR ''9''"
    "isdigit CHR ''0''" "isdigit CHR ''1''" "\<not> isdigit CHR ''a''"
    by (simp_all add: isdigit_def)
  have pos: "positional ''256''" "positional ''9000''" "positional ''12ab''"
    by (simp_all add: positional_def)
  have hf: "help_flag ''-h''"
    by (simp add: help_flag_def)
  have num: "numeric ''256''" "numeric ''9000''" "\<not> numeric ''12ab''"
    by (simp_all add: numeric_def isd)
  have dec: "decimal ''256'' = 256" "decimal ''9000'' = 9000"
    by (simp_all add: decimal_def decimal_from_def)
  note T = command_line_and_exit_codes [where engine = recording_engine and ?aubio0.0 = "[]"
      and c = id and ops = "[]" and run_raises = False]
  have w1: "parseArgs [''beat'', ''256''] = Inr (default_Options\<lparr>buffer_size_opt := 256\<rparr>)"
    using T [where arg = "''256''" and prog = "''beat''", THEN conjunct2, THEN conjunct2, THEN conjunct2, THEN conjunct2, THEN conjunct2, THEN conjunct2, THEN conjunct2, THEN conjunct1]
      pos(1) num(1) dec(1)
    by simp
  have p2: "parseArgs [''beat'', ''--pitch'', ''9000'', ''--help'']
              = Inl \<lparr>kind = Invalid, message = ''buffer_size out of range [64, 8192]''\<rparr>"
    by (simp add: parseArgs_def parseArgs_loop_positional [OF pos(2)] num dec
          parseArgs_loop_flag positional_def help_flag_def)
  have w2: "main [''beat'', ''--pitch'', ''9000'', ''--help''] good_env recording_engine [] id []
              False = Some 1"
    using T [where args = "[''beat'', ''--pitch'', ''9000'', ''--help'']" and env = good_env,
        THEN conjunct2, THEN conjunct2, THEN conjunct2, THEN conjunct2, THEN conjunct2, THEN conjunct2, THEN conjunct2, THEN conjunct2, THEN conjunct2, THEN conjunct2, THEN conjunct1] p2
    by simp
  have "\<exists>msg. parseArgs (''beat'' # [] @ ''12ab'' # [])
                = Inl \<lparr>kind = Invalid, message = msg\<rparr>"
    using T [where arg = "''12ab''" and pre = "[]" and prog = "''beat''" and post = "[]",
        THEN conjunct2, THEN conjunct2, THEN conjunct2, THEN conjunct2, THEN conjunct2, THEN conjunct2, THEN conjunct2, THEN conjunct2, THEN conjunct1]
      pos(3) num(3)
    by simp
  then obtain msg where "parseArgs [''beat'', ''12ab''] = Inl \<lparr>kind = Invalid, message = msg\<rparr>"
    by auto
  then have w3: "main [''beat'', ''12ab''] good_env recording_engine [] id [] False = Some 1"
    using T [where args = "[''beat'', ''12ab'']" and env = good_env, THEN conjunct2, THEN conjunct2, THEN conjunct2, THEN conjunct2, THEN conjunct2, THEN conjunct2, THEN conjunct2, THEN conjunct2, THEN conjunct2, THEN conjunct2, THEN conjunct1]
    by simp
  have "parseArgs (''beat'' # [''--pitch'']) = Inr (default_Options\<lparr>pitch := True\<rparr>)"
    by (simp add: parseArgs_def parseArgs_loop_flag positional_def help_flag_def)
  then have "parseArgs (''beat'' # [''--pitch''] @ ''-h'' # [''12ab''])
               = Inl \<lparr>kind = Help, message = []\<rparr>"
    using T [where h = "''-h''" and pre = "[''--pitch'']" and prog = "''beat''"
        and post = "[''12ab'']", THEN conjunct2, THEN conjunct2, THEN conjunct2, THEN conjunct2, THEN conjunct2, THEN conjunct2, THEN conjunct2, THEN conjunct2, THEN conjunct2, THEN conjunct1] hf
    by blast
  then have w4: "main [''beat'', ''--pitch'', ''-h'', ''12ab''] good_env recording_engine [] id []
                   False = Some 0"
    using T [where args = "[''beat'', ''--pitch'', ''-h'', ''12ab'']" and env = good_env,
        THEN conjunct2, THEN conjunct2, THEN conjunct2, THEN conjunct2, THEN conjunct2, THEN conjunct2, THEN conjunct2, THEN conjunct2, THEN conjunct2, THEN conjunct2, THEN conjunct1]
    by simp
  have dflt: "parseArgs [''beat''] = Inr default_Options"
    using T [where prog = "''beat''", THEN conjunct2, THEN conjunct1] .
  have "initialize broken_env
          (DetectorState_ctor (buffer_size_opt default_Options) (logging default_Options)
             (stats default_Options) (pitch default_Options) (visual default_Options) False []
           :: (real, real list list) DetectorState) = Inl ''failed to connect to stream''"
    by (simp add: initialize_def open_log_def println_log_def broken_env_def good_env_def
          default_Options_def DetectorState_ctor_def Let_def)
  then have w5: "main [''beat''] broken_env recording_engine [] id [] False = Some 1"
    using T [where args = "[''beat'']" and env = broken_env, THEN conjunct2, THEN conjunct2, THEN conjunct2, THEN conjunct2, THEN conjunct2, THEN conjunct2, THEN conjunct2, THEN conjunct2, THEN conjunct2, THEN conjunct2, THEN conjunct2, THEN conjunct1] dflt
    by blast
  let ?flags = "[''beat'', ''--pitch'', ''--no-log'']"
  note F = command_line_and_exit_codes [where engine = recording_engine and ?aubio0.0 = "[]"
      and c = id and ops = "[OpProcess None, OpStop]" and args = ?flags and env = good_env]
  have np: "\<not> positional ''--pitch''" "\<not> positional ''--no-log''"
    by (simp_all add: positional_def)
  have "\<exists>options. parseArgs ?flags = Inr options"
    using F [where run_raises = False, THEN conjunct2, THEN conjunct2, THEN conjunct2, THEN conjunct2, THEN conjunct2, THEN conjunct1]
    by (simp add: np)
  then obtain options where acc: "parseArgs ?flags = Inr options"
    by blast
  have "buffer_size_opt options
          = (case filter positional (drop 1 ?flags) of
               [] \<Rightarrow> 512 | size_arg # others \<Rightarrow> decimal size_arg)
        \<and> logging options = (''--no-log'' \<notin> set (drop 1 ?flags))
        \<and> stats options = (''--no-stats'' \<notin> set (drop 1 ?flags))
        \<and> pitch options = (''--pitch'' \<in> set (drop 1 ?flags))
        \<and> visual options = (''--no-visual'' \<notin> set (drop 1 ?flags))"
    using F [where run_raises = False, THEN conjunct2, THEN conjunct2, THEN conjunct2, THEN conjunct2, THEN conjunct1] acc
    by blast
  then have "options = \<lparr>buffer_size_opt = 512, logging = False, stats = True, pitch = True,
                        visual = True\<rparr>"
    by (cases options) (simp add: np)
  then have w6: "parseArgs ?flags
                   = Inr \<lparr>buffer_size_opt = 512, logging = False, stats = True, pitch = True,
                          visual = True\<rparr>"
    using acc by simp
  have init: "\<exists>ready. initialize good_env
          (DetectorState_ctor
             (buffer_size_opt \<lparr>buffer_size_opt = 512, logging = False, stats = True,
                               pitch = True, visual = True\<rparr>)
             (logging \<lparr>buffer_size_opt = 512, logging = False, stats = True,
                       pitch = True, visual = True\<rparr>)
             (stats \<lparr>buffer_size_opt = 512, logging = False, stats = True,
                     pitch = True, visual = True\<rparr>)
             (pitch \<lparr>buffer_size_opt = 512, logging = False, stats = True,
                     pitch = True, visual = True\<rparr>)
             (visual \<lparr>buffer_size_opt = 512, logging = False, stats = True,
                      pitch = True, visual = True\<rparr>) False []
           :: (real, real list list) DetectorState) = Inr ready"
    by (simp add: initialize_def open_log_def println_log_def good_env_def
          DetectorState_ctor_def Let_def)
  have "main ?flags good_env recording_engine [] id [OpProcess None, OpStop] False
          = Some (if False then 1 else 0)"
    using F [where run_raises = False, THEN conjunct2, THEN conjunct2, THEN conjunct2, THEN conjunct2, THEN conjunct2, THEN conjunct2, THEN conjunct2, THEN conjunct2, THEN conjunct2, THEN conjunct2, THEN conjunct2, THEN conjunct2, THEN conjunct1] w6 init
    by blast
  then have w7: "main ?flags good_env recording_engine [] id [OpProcess None, OpStop] False
                   = Some 0"
    by simp
  have "main ?flags good_env recording_engine [] id [OpProcess None, OpStop] True
          = Some (if True then 1 else 0)"
    using F [where run_raises = True, THEN conjunct2, THEN conjunct2, THEN conjunct2, THEN conjunct2, THEN conjunct2, THEN conjunct2, THEN conjunct2, THEN conjunct2, THEN conjunct2, THEN conjunct2, THEN conjunct2, THEN conjunct2, THEN conjunct1] w6 init
    by blast
  then have w8: "main ?flags good_env recording_engine [] id [OpProcess None, OpStop] True
                   = Some 1"
    by simp
  show ?thesis
    by (intro conjI pos hf w1 p2 w2 w3 w4 w5 w6 w7 w8)
qed

text \<open>
  Claim C9 as stated fails for a positional argument out of range that follows a help
  option: the parse ends at the help option, and the process exits with 0.
\<close>

theorem help_before_bad_size_counterexample:
  "positional ''9000'' \<and> decimal ''9000'' = 9000
   \<and> parseArgs [''beat'', ''--help'', ''9000''] = Inl \<lparr>kind = Help, message = []\<rparr>
   \<and> main [''beat'', ''--help'', ''9000''] good_env recording_engine [] id [] False = Some 0"
proof -
  have p: "parseArgs [''beat'', ''--help'', ''9000''] = Inl \<lparr>kind = Help, message = []\<rparr>"
    by (simp add: parseArgs_def parseArgs_loop_flag flag_not_positional help_flag_def)
  have "main [''beat'', ''--help'', ''9000''] good_env recording_engine [] id [] False = Some 0"
    using main_exit(1) [OF p, where env = good_env and engine = recording_engine
        and ?aubio0.0 = "[]" and c = id and ops = "[]" and run_raises = False]
    by simp
  then show ?thesis
    using p by (simp add: positional_def decimal_def decimal_from_def)
qed

end
